theory Spec2Isabelle
  imports Complex_Main "HOL-Library.Log_Nat" "HOL-Library.AList" "HOL-Library.Sublist"
begin

section \<open>Strings and numbers of the script\<close>

text \<open>
  The script \<^verbatim>\<open>scripts/generate-stats.mjs\<close> is embedded function by function.
  Strings are \<^typ>\<open>string\<close>; the rendered image is the text written to
  \<^verbatim>\<open>assets/stats.svg\<close> in UTF-8, so the one character of the template outside
  ASCII (the dash of the header) stands as its three bytes. Counts and sizes are the
  integers the API reports (GraphQL \<^verbatim>\<open>Int\<close>); their sums stay far below \<open>2^53\<close>,
  where the additions of the script are exact, and are modelled in \<^typ>\<open>int\<close>.
  The quotient and the product of the percentage are not exact in the script and are
  modelled with their binary64 rounding.
\<close>

text \<open>\<^verbatim>\<open>s.replaceAll(c, r)\<close> for a pattern \<open>c\<close> of one character, as in every call of \<^verbatim>\<open>esc\<close>.\<close>

definition replaceAll :: "char \<Rightarrow> string \<Rightarrow> string \<Rightarrow> string" where
  "replaceAll c r s = concat (map (\<lambda>x. if x = c then r else [x]) s)"

definition esc :: "string \<Rightarrow> string" where
  "esc s =
     replaceAll (CHR 0x27) ''&#39;''
       (replaceAll (CHR 0x22) ''&quot;''
         (replaceAll (CHR ''>'') ''&gt;''
           (replaceAll (CHR ''<'') ''&lt;''
             (replaceAll (CHR ''&'') ''&amp;'' s))))"

text \<open>The escaped form of one character, in the words of the specification.\<close>

definition entity :: "char \<Rightarrow> string" where
  "entity c =
     (if c = CHR ''&'' then ''&amp;''
      else if c = CHR ''<'' then ''&lt;''
      else if c = CHR ''>'' then ''&gt;''
      else if c = CHR 0x22 then ''&quot;''
      else if c = CHR 0x27 then ''&#39;''
      else [c])"

text \<open>\<^verbatim>\<open>String(n)\<close> for an integer \<open>n\<close>.\<close>

definition digit :: "nat \<Rightarrow> char" where
  "digit d = char_of (48 + d)"

fun digits :: "nat \<Rightarrow> string" where
  "digits n = (if n < 10 then [digit n] else digits (n div 10) @ [digit (n mod 10)])"

declare digits.simps [simp del]

definition String_int :: "int \<Rightarrow> string" where
  "String_int i = (if i < 0 then ''-'' @ digits (nat (- i)) else digits (nat i))"

text \<open>
  \<^verbatim>\<open>new Intl.NumberFormat("en-US").format(Number(n) || 0)\<close> on an integer: the decimal
  digits in groups of three, separated by commas.
\<close>

fun group3 :: "string \<Rightarrow> string" where
  "group3 (a # b # c # d # ds) = a # b # c # CHR '','' # group3 (d # ds)"
| "group3 ds = ds"

definition formatNumber :: "int \<Rightarrow> string" where
  "formatNumber n =
     (if n < 0 then ''-'' @ rev (group3 (rev (digits (nat (- n)))))
      else rev (group3 (rev (digits (nat n)))))"

text \<open>
  \<^verbatim>\<open>s.padEnd(n)\<close> and \<^verbatim>\<open>s.padStart(n)\<close>, with the space as the fill. The script counts a
  length in UTF-16 code units; for the text in ASCII that it pads (language names and
  decimal numerals) that is the length of the list.
\<close>

definition padEnd :: "nat \<Rightarrow> string \<Rightarrow> string" where
  "padEnd n s = s @ replicate (n - length s) (CHR '' '')"

definition padStart :: "nat \<Rightarrow> string \<Rightarrow> string" where
  "padStart n s = replicate (n - length s) (CHR '' '') @ s"

text \<open>\<^verbatim>\<open>xs.join(sep)\<close>.\<close>

fun join :: "string \<Rightarrow> string list \<Rightarrow> string" where
  "join sep [] = []"
| "join sep [x] = x"
| "join sep (x # y # ys) = x @ sep @ join sep (y # ys)"

section \<open>The renderer\<close>

text \<open>
  The argument of \<^verbatim>\<open>renderTerminalSvg\<close>. A top-language entry \<^verbatim>\<open>{name, percent}\<close> is a
  pair. The module constant \<^verbatim>\<open>USERNAME\<close> (the account handle, read from the
  environment) is passed as a parameter.
\<close>

record stats =
  name :: string
  followers :: int
  publicRepos :: int
  totalCommitsApprox :: int
  topLangs :: "(string \<times> int) list"

definition W :: nat where "W = 760"
definition H :: nat where "H = 280"
definition pad :: nat where "pad = 22"
definition lineHeight :: nat where "lineHeight = 18"
definition startY :: nat where "startY = 48"

definition bg :: string where "bg = ''#0b0f0e''"
definition border :: string where "border = ''#1f2a27''"
definition green :: string where "green = ''#22c55e''"
definition dim :: string where "dim = ''#86efac''"

definition mono :: string where
  "mono = ''ui-monospace, SFMono-Regular, Menlo, Monaco, Consolas, 'Liberation Mono', 'Courier New', monospace''"

definition title :: "string \<Rightarrow> stats \<Rightarrow> string" where
  "title USERNAME a = (if name a \<noteq> [] then name a else USERNAME)"

text \<open>The line of one top-language entry (line 62 of the script).\<close>

definition langLine :: "string \<times> int \<Rightarrow> string" where
  "langLine l = padEnd 14 (fst l) @ '' '' @ padStart 5 (String_int (snd l)) @ ''%''"

definition lines :: "string \<Rightarrow> stats \<Rightarrow> string list" where
  "lines USERNAME a =
     [USERNAME @ ''@github:~$ whoami'',
      title USERNAME a,
      [],
      USERNAME @ ''@github:~$ stats --summary'',
      ''followers: '' @ formatNumber (followers a),
      ''public_repos: '' @ formatNumber (publicRepos a),
      ''total_commits (approx): '' @ formatNumber (totalCommitsApprox a),
      [],
      USERNAME @ ''@github:~$ stats --top-languages'']
     @ map langLine (topLangs a)
     @ [[],
        USERNAME @ ''@github:~$ _'']"

definition maxLines :: nat where
  "maxLines = (H - startY - 22) div lineHeight"

definition clipped :: "string \<Rightarrow> stats \<Rightarrow> string list" where
  "clipped USERNAME a = take maxLines (lines USERNAME a)"

definition color :: "string \<Rightarrow> string \<Rightarrow> string" where
  "color USERNAME line =
     (if prefix (USERNAME @ ''@github'') line then green
      else if line = [] then dim
      else if suffix ''$ _'' line then green
      else dim)"

text \<open>
  The two template literals of the renderer, as functions of the values they interpolate:
  the \<^verbatim>\<open>text\<close> element of one line (line 88), and the image (lines 92 to 119) around
  the escaped handle and the text nodes.
\<close>

definition text_element :: "nat \<Rightarrow> string \<Rightarrow> string \<Rightarrow> string" where
  \<open>text_element y fill content =
     ''<text x="'' @ digits pad @ ''" y="'' @ digits y
     @ ''" font-family="'' @ mono @ ''" font-size="14" fill="'' @ fill
     @ ''">'' @ content @ ''</text>''\<close>

definition svg_template :: "string \<Rightarrow> string \<Rightarrow> string" where
  \<open>svg_template handle nodes =
     join ''\<newline>''
      [''<?xml version="1.0" encoding="UTF-8"?>'',
       ''<svg width="'' @ digits W @ ''" height="'' @ digits H @ ''" viewBox="0 0 '' @ digits W @ '' '' @ digits H
         @ ''" xmlns="http://www.w3.org/2000/svg" role="img" aria-label="Terminal GitHub stats for ''
         @ handle @ ''">'',
       ''  <defs>'',
       ''    <filter id="shadow" x="-20%" y="-20%" width="140%" height="140%">'',
       ''      <feDropShadow dx="0" dy="10" stdDeviation="10" flood-color="#000" flood-opacity="0.45"/>'',
       ''    </filter>'',
       ''    <linearGradient id="scan" x1="0" y1="0" x2="0" y2="1">'',
       ''      <stop offset="0%" stop-color="#ffffff" stop-opacity="0.02"/>'',
       ''      <stop offset="100%" stop-color="#ffffff" stop-opacity="0.00"/>'',
       ''    </linearGradient>'',
       ''  </defs>'',
       [],
       ''  <rect x="0" y="0" width="'' @ digits W @ ''" height="'' @ digits H @ ''" rx="16" fill="'' @ bg
         @ ''" filter="url(#shadow)"/>'',
       ''  <rect x="1" y="1" width="'' @ digits (W - 2) @ ''" height="'' @ digits (H - 2)
         @ ''" rx="15" fill="none" stroke="'' @ border @ ''"/>'',
       [],
       ''  <!-- Terminal header dots -->'',
       ''  <g transform="translate('' @ digits pad @ '', 18)">'',
       ''    <circle cx="8" cy="8" r="5" fill="#ef4444"/>'',
       ''    <circle cx="28" cy="8" r="5" fill="#f59e0b"/>'',
       ''    <circle cx="48" cy="8" r="5" fill="#22c55e"/>'',
       ''    <text x="76" y="12" font-family="'' @ mono @ ''" font-size="12" fill="#9ca3af">'' @ handle
         @ '' '' @ [CHR 0xE2, CHR 0x80, CHR 0x94] @ '' stats</text>'',
       ''  </g>'',
       [],
       ''  <!-- Scanline overlay -->'',
       ''  <rect x="0" y="0" width="'' @ digits W @ ''" height="'' @ digits H @ ''" rx="16" fill="url(#scan)"/>'',
       [],
       ''  '' @ nodes,
       ''</svg>'']\<close>

definition textNode :: "string \<Rightarrow> nat \<Rightarrow> string \<Rightarrow> string" where
  "textNode USERNAME i line =
     text_element (startY + i * lineHeight) (color USERNAME line) (esc line)"

definition textNodes :: "string \<Rightarrow> stats \<Rightarrow> string" where
  "textNodes USERNAME a =
     join ''\<newline>'' (map (\<lambda>(i, line). textNode USERNAME i line) (enumerate 0 (clipped USERNAME a)))"

definition renderTerminalSvg :: "string \<Rightarrow> stats \<Rightarrow> string" where
  "renderTerminalSvg USERNAME a = svg_template (esc USERNAME) (textNodes USERNAME a)"

section \<open>Numbers: binary64 rounding\<close>

text \<open>
  A number of the script is an IEEE 754 binary64 value. \<open>fl x\<close> is the binary64 value
  nearest to the rational \<open>x\<close>, ties to the even significand (53 significant bits; the
  exponent range is not modelled, no quotient or product of the script leaves it).
  \<open>expo x\<close> is the exponent of \<open>x\<close>: \<open>2 ^ expo x \<le> \<bar>x\<bar> < 2 ^ (expo x + 1)\<close>.
\<close>

definition rne :: "rat \<Rightarrow> int" where
  "rne y =
     (let f = \<lfloor>y\<rfloor>; r = y - of_int f
      in if r < 1 / 2 then f else if 1 / 2 < r then f + 1 else if even f then f else f + 1)"

definition expo :: "rat \<Rightarrow> int" where
  "expo x =
     (let (p, q) = quotient_of \<bar>x\<bar>; k = bitlen p - bitlen q
      in if of_int q * 2 powi k \<le> (of_int p :: rat) then k else k - 1)"

definition fl :: "rat \<Rightarrow> rat" where
  "fl x = (if x = 0 then 0 else let u = 2 powi (expo x - 52) in of_int (rne (x / u)) * u)"

text \<open>The operators \<^verbatim>\<open>/\<close> and \<^verbatim>\<open>*\<close> on numbers, and \<^verbatim>\<open>Math.round\<close> (ties towards \<open>+\<infinity>\<close>).\<close>

definition js_div :: "rat \<Rightarrow> rat \<Rightarrow> rat" where
  "js_div a b = fl (a / b)"

definition js_mul :: "rat \<Rightarrow> rat \<Rightarrow> rat" where
  "js_mul a b = fl (a * b)"

definition Math_round :: "rat \<Rightarrow> int" where
  "Math_round x = \<lfloor>x + 1 / 2\<rfloor>"

text \<open>Round-half-up of an exact rational, in the words of the specification.\<close>

definition round_half_up :: "rat \<Rightarrow> int" where
  "round_half_up x = \<lfloor>x + 1 / 2\<rfloor>"

section \<open>Objects used as maps\<close>

text \<open>
  \<^verbatim>\<open>langSizes\<close> is a plain object (\<^verbatim>\<open>{}\<close>, line 197) used as a map from language name to
  size. It is modelled by the list of its own properties in the order \<^verbatim>\<open>Object.entries\<close>
  reports them (ECMAScript, OrdinaryOwnPropertyKeys): the keys that are array indices
  (canonical decimal numerals below \<open>2^32 - 1\<close>) first, in ascending numeric order, then
  every other key in the order of its creation. Writing an existing property keeps its
  place.

  The prototype of the object is \<^verbatim>\<open>Object.prototype\<close>: a name that the object does not own
  is looked up there. \<^verbatim>\<open>Object.prototype\<close> defines eleven functions and the accessor
  \<^verbatim>\<open>__proto__\<close>.
\<close>

type_synonym 'v object = "(string \<times> 'v) list"

definition prototype_functions :: "string list" where
  "prototype_functions =
     [''constructor'', ''__defineGetter__'', ''__defineSetter__'', ''hasOwnProperty'',
      ''__lookupGetter__'', ''__lookupSetter__'', ''isPrototypeOf'', ''propertyIsEnumerable'',
      ''toString'', ''valueOf'', ''toLocaleString'']"

text \<open>
  A value that the script stores in \<^verbatim>\<open>langSizes\<close>: a number or a string. A string arises
  only when a size is added to a member of \<^verbatim>\<open>Object.prototype\<close>; it starts with the text of
  that member (\<^verbatim>\<open>function ...\<close> or \<^verbatim>\<open>[object Object]\<close>), so it is not empty and does not read
  as a number. Its characters reach no output and are not kept.
\<close>

datatype jsval = Num int | Str

definition is_digit :: "char \<Rightarrow> bool" where
  "is_digit c = (48 \<le> (of_char c :: int) \<and> (of_char c :: int) \<le> 57)"

definition decimal :: "string \<Rightarrow> int" where
  "decimal s = foldl (\<lambda>n c. 10 * n + (of_char c - 48)) 0 s"

definition is_array_index :: "string \<Rightarrow> bool" where
  "is_array_index s =
     (s \<noteq> [] \<and> list_all is_digit s \<and> (s = ''0'' \<or> hd s \<noteq> CHR ''0'') \<and> decimal s < 2 ^ 32 - 1)"

fun ins_index :: "string \<Rightarrow> 'v \<Rightarrow> 'v object \<Rightarrow> 'v object" where
  "ins_index k v [] = [(k, v)]"
| "ins_index k v (p # ps) =
     (if is_array_index (fst p) \<and> decimal (fst p) < decimal k then p # ins_index k v ps
      else (k, v) # p # ps)"

text \<open>
  Writing the own property \<open>k\<close>: the value of an existing property is replaced where it
  stands, and a new property takes its place in the order of the keys.
\<close>

definition set_own :: "string \<Rightarrow> 'v \<Rightarrow> 'v object \<Rightarrow> 'v object" where
  "set_own k v obj =
     (if k \<in> fst ` set obj then AList.update k v obj
      else if is_array_index k then ins_index k v obj
      else obj @ [(k, v)])"

text \<open>
  \<^verbatim>\<open>obj[k] = v\<close> for a number or a string \<open>v\<close>. The name \<^verbatim>\<open>__proto__\<close> reaches the setter of
  \<^verbatim>\<open>Object.prototype\<close>, which ignores a value that is neither an object nor \<^verbatim>\<open>null\<close>: nothing
  is stored. Every other name writes an own property, also when \<^verbatim>\<open>Object.prototype\<close> has
  a function of that name (its properties are writable).
\<close>

definition obj_set :: "string \<Rightarrow> jsval \<Rightarrow> jsval object \<Rightarrow> jsval object" where
  "obj_set k v obj = (if k = ''__proto__'' then obj else set_own k v obj)"

text \<open>
  \<^verbatim>\<open>obj[k] ?? 0\<close>: the own property \<open>k\<close>; without one, the member \<open>k\<close> of \<^verbatim>\<open>Object.prototype\<close>,
  which is a function or, for \<^verbatim>\<open>__proto__\<close>, the prototype itself (\<open>None\<close> stands for such
  an object); and 0 when there is neither.
\<close>

definition obj_get0 :: "jsval object \<Rightarrow> string \<Rightarrow> jsval option" where
  "obj_get0 obj k =
     (case map_of obj k of
        Some v \<Rightarrow> Some v
      | None \<Rightarrow> if k = ''__proto__'' \<or> k \<in> set prototype_functions then None else Some (Num 0))"

text \<open>
  \<^verbatim>\<open>x + size\<close> for a size that is a number: the sum when \<open>x\<close> is a number, and otherwise
  the concatenation of \<open>x\<close>, as a string, and the digits of the size.
\<close>

definition js_add :: "jsval option \<Rightarrow> int \<Rightarrow> jsval" where
  "js_add x n = (case x of Some (Num a) \<Rightarrow> Num (a + n) | Some Str \<Rightarrow> Str | None \<Rightarrow> Str)"

section \<open>The aggregator\<close>

text \<open>
  \<^verbatim>\<open>computeTopLanguages\<close> at a tally whose sizes are numbers.
  \<^verbatim>\<open>entries.sort((a, b) => b.size - a.size)\<close>: the sort of the language is stable, and
  the comparator orders numbers by size, descending.
\<close>

definition sort_by_size_desc :: "(string \<times> int) list \<Rightarrow> (string \<times> int) list" where
  "sort_by_size_desc entries = sort_key (\<lambda>e. - snd e) entries"

definition top6 :: "int object \<Rightarrow> (string \<times> int) list" where
  "top6 langSizeMap = take 6 (sort_by_size_desc langSizeMap)"

text \<open>\<^verbatim>\<open>top.reduce((s, x) => s + x.size, 0) || 1\<close>.\<close>

definition total_of :: "(string \<times> int) list \<Rightarrow> int" where
  "total_of tops = (let s = foldl (\<lambda>s x. s + snd x) 0 tops in if s = 0 then 1 else s)"

definition percent_of :: "int \<Rightarrow> int \<Rightarrow> int" where
  "percent_of sz tot = Math_round (js_mul (js_div (of_int sz) (of_int tot)) 100)"

definition computeTopLanguages :: "int object \<Rightarrow> (string \<times> int) list" where
  "computeTopLanguages langSizeMap =
     (let tops = top6 langSizeMap;
          tot = total_of tops
      in map (\<lambda>x. (fst x, percent_of (snd x) tot)) tops)"

text \<open>
  A repository node of a response. Every optional field of the response is an
  \<^typ>\<open>'a option\<close>; \<open>historyTotalCount\<close> is
  \<^verbatim>\<open>r?.defaultBranchRef?.target?.history?.totalCount\<close>, absent when any link is.
\<close>

record edge =
  node_name :: "string option"
  edge_size :: "int option"

record repo =
  repo_name :: string
  isArchived :: bool
  historyTotalCount :: "int option"
  languages_edges :: "edge option list option"

definition edgeName :: "edge option \<Rightarrow> string option" where
  "edgeName e = (case e of None \<Rightarrow> None | Some x \<Rightarrow> node_name x)"

definition edgeSize :: "edge option \<Rightarrow> int" where
  "edgeSize e = (case e of None \<Rightarrow> 0 | Some x \<Rightarrow> (case edge_size x of None \<Rightarrow> 0 | Some n \<Rightarrow> n))"

text \<open>The inner loop of the aggregation (lines 208 to 213).\<close>

fun addEdges :: "edge option list \<Rightarrow> jsval object \<Rightarrow> jsval object" where
  "addEdges [] langSizes = langSizes"
| "addEdges (e # es) langSizes =
     (case edgeName e of
        None \<Rightarrow> addEdges es langSizes
      | Some nm \<Rightarrow>
          if nm = [] then addEdges es langSizes
          else addEdges es (obj_set nm (js_add (obj_get0 langSizes nm) (edgeSize e)) langSizes))"

definition repoCommitCount :: "repo \<Rightarrow> int" where
  "repoCommitCount r = (case historyTotalCount r of None \<Rightarrow> 0 | Some n \<Rightarrow> n)"

definition edges_of :: "repo \<Rightarrow> edge option list" where
  "edges_of r = (case languages_edges r of None \<Rightarrow> [] | Some es \<Rightarrow> es)"

text \<open>The outer loop (lines 199 to 214), on the pair of \<^verbatim>\<open>totalCommitsApprox\<close> and \<^verbatim>\<open>langSizes\<close>.\<close>

fun aggregate :: "repo option list \<Rightarrow> int \<times> jsval object \<Rightarrow> int \<times> jsval object" where
  "aggregate [] acc = acc"
| "aggregate (r # rs) (commits, langSizes) =
     (case r of
        None \<Rightarrow> aggregate rs (commits, langSizes)
      | Some x \<Rightarrow>
          if isArchived x then aggregate rs (commits, langSizes)
          else aggregate rs (commits + repoCommitCount x, addEdges (edges_of x) langSizes))"

section \<open>The fetcher and the script\<close>

text \<open>
  \<^verbatim>\<open>gql\<close> is the one call that reaches the network. The API is a parameter: the
  answer to the request number \<open>page\<close> sent with the cursor \<open>after\<close>, either an error
  (a failed transport, a status that is not a success, an \<^verbatim>\<open>errors\<close> member) or
  \<^verbatim>\<open>data.user\<close>. The world records every request issued and the files written.
\<close>

datatype error = MissingEnv string | GraphQLError

record page_info =
  hasNextPage :: bool
  endCursor :: "string option"

record repositories =
  totalCount :: "int option"
  nodes :: "repo option list option"
  pageInfo :: "page_info option"

record user =
  user_name :: "string option"
  followers_totalCount :: "int option"
  user_repositories :: "repositories option"

type_synonym api = "nat \<Rightarrow> string option \<Rightarrow> error + user option"

record world =
  requests :: "string option list"
  files :: "string \<rightharpoonup> string"

text \<open>The variables of \<^verbatim>\<open>main\<close> that the loop over the pages assigns.\<close>

record fetched =
  after :: "string option"
  allRepos :: "repo option list"
  userName :: string
  followersCount :: int
  publicReposCount :: int

definition user_repos :: "user option \<Rightarrow> repositories option" where
  "user_repos u = (case u of None \<Rightarrow> None | Some x \<Rightarrow> user_repositories x)"

definition first_page :: "user option \<Rightarrow> fetched \<Rightarrow> fetched" where
  "first_page u st =
     st\<lparr>userName := (case u of None \<Rightarrow> [] | Some x \<Rightarrow> (case user_name x of None \<Rightarrow> [] | Some n \<Rightarrow> n)),
        followersCount :=
          (case u of None \<Rightarrow> 0 | Some x \<Rightarrow> (case followers_totalCount x of None \<Rightarrow> 0 | Some n \<Rightarrow> n)),
        publicReposCount :=
          (case user_repos u of None \<Rightarrow> 0 | Some rs \<Rightarrow> (case totalCount rs of None \<Rightarrow> 0 | Some n \<Rightarrow> n))\<rparr>"

definition page_repos :: "user option \<Rightarrow> repo option list" where
  "page_repos u = (case user_repos u of None \<Rightarrow> [] | Some rs \<Rightarrow> (case nodes rs of None \<Rightarrow> [] | Some ns \<Rightarrow> ns))"

definition page_pi :: "user option \<Rightarrow> page_info option" where
  "page_pi u = (case user_repos u of None \<Rightarrow> None | Some rs \<Rightarrow> pageInfo rs)"

text \<open>The loop \<^verbatim>\<open>for (let page = 0; page < 3; page++)\<close> of \<^verbatim>\<open>main\<close>, from \<open>page\<close> on.\<close>

function fetchPages :: "api \<Rightarrow> nat \<Rightarrow> world \<times> fetched \<Rightarrow> world \<times> (error + fetched)" where
  "fetchPages gql page (w, st) =
     (if page < 3 then
        (let w' = w\<lparr>requests := requests w @ [after st]\<rparr> in
         case gql page (after st) of
           Inl e \<Rightarrow> (w', Inl e)
         | Inr u \<Rightarrow>
             (let st1 = (if page = 0 then first_page u st else st);
                  st2 = st1\<lparr>allRepos := allRepos st1 @ page_repos u\<rparr>
              in case page_pi u of
                   None \<Rightarrow> (w', Inr st2)
                 | Some p \<Rightarrow>
                     if \<not> hasNextPage p then (w', Inr st2)
                     else fetchPages gql (page + 1) (w', st2\<lparr>after := endCursor p\<rparr>)))
      else (w, Inr st))"
  by pat_completeness auto
termination
  by (relation "measure (\<lambda>(gql, page, s). 3 - page)") auto

declare fetchPages.simps [simp del]

definition initial :: fetched where
  "initial = \<lparr>after = None, allRepos = [], userName = [], followersCount = 0, publicReposCount = 0\<rparr>"

text \<open>
  The sizes of a tally in which every size is a number, and the call
  \<^verbatim>\<open>computeTopLanguages(langSizes)\<close> of \<^verbatim>\<open>main\<close> (line 216). \<open>computeTopLanguages\<close> above
  takes sizes that are numbers. When a size is a string, the comparator of the sort
  yields \<^verbatim>\<open>NaN\<close> against it and is not consistent, ECMAScript leaves the order of the sort
  to the engine, and a percentage can be \<^verbatim>\<open>NaN\<close>: the model does not say what the list is
  then.
\<close>

fun numbers :: "jsval object \<Rightarrow> int object option" where
  "numbers [] = Some []"
| "numbers ((k, Num n) # es) = map_option (\<lambda>t. (k, n) # t) (numbers es)"
| "numbers ((k, Str) # es) = None"

definition topLanguages :: "jsval object \<Rightarrow> (string \<times> int) list" where
  "topLanguages langSizes =
     (case numbers langSizes of Some t \<Rightarrow> computeTopLanguages t | None \<Rightarrow> undefined)"

text \<open>Steps 2 and 3 of \<^verbatim>\<open>main\<close>: the aggregation of what was fetched, and the rendering.\<close>

definition summary :: "fetched \<Rightarrow> stats" where
  "summary st =
     (let (commits, langSizes) = aggregate (allRepos st) (0, [])
      in \<lparr>name = userName st, followers = followersCount st, publicRepos = publicReposCount st,
          totalCommitsApprox = commits, topLangs = topLanguages langSizes\<rparr>)"

definition svg_of :: "string \<Rightarrow> fetched \<Rightarrow> string" where
  "svg_of USERNAME st = renderTerminalSvg USERNAME (summary st)"

definition main :: "string \<Rightarrow> api \<Rightarrow> world \<Rightarrow> world \<times> (error + unit)" where
  "main USERNAME gql w =
     (case fetchPages gql 0 (w, initial) of
        (w', Inl e) \<Rightarrow> (w', Inl e)
      | (w', Inr st) \<Rightarrow>
          (w'\<lparr>files := (files w')(''assets/stats.svg'' \<mapsto> svg_of USERNAME st)\<rparr>, Inr ()))"

text \<open>The module: the two checks of the environment, then \<^verbatim>\<open>main\<close>.\<close>

record env =
  GITHUB_USERNAME :: "string option"
  GITHUB_TOKEN :: "string option"

definition getenv :: "string option \<Rightarrow> string" where
  "getenv v = (case v of None \<Rightarrow> [] | Some s \<Rightarrow> s)"

definition script :: "env \<Rightarrow> api \<Rightarrow> world \<Rightarrow> world \<times> (error + unit)" where
  "script e gql w =
     (if getenv (GITHUB_USERNAME e) = [] then (w, Inl (MissingEnv ''GITHUB_USERNAME''))
      else if getenv (GITHUB_TOKEN e) = [] then (w, Inl (MissingEnv ''GITHUB_TOKEN''))
      else main (getenv (GITHUB_USERNAME e)) gql w)"

section \<open>Notions used in the statements\<close>

text \<open>
  The five entities; the nine lines before the language lines; whether a response
  announces a further page, its cursor, and the state after a page; the world after a
  request; the display name of a response; a repository the aggregation skips; and two
  concrete inputs.
\<close>

definition entities :: "string list" where
  "entities = [''&amp;'', ''&lt;'', ''&gt;'', ''&quot;'', ''&#39;'']"

definition scaffold :: "string \<Rightarrow> stats \<Rightarrow> string list" where
  "scaffold USERNAME a =
     [USERNAME @ ''@github:~$ whoami'',
      title USERNAME a,
      [],
      USERNAME @ ''@github:~$ stats --summary'',
      ''followers: '' @ formatNumber (followers a),
      ''public_repos: '' @ formatNumber (publicRepos a),
      ''total_commits (approx): '' @ formatNumber (totalCommitsApprox a),
      [],
      USERNAME @ ''@github:~$ stats --top-languages'']"

definition more :: "user option \<Rightarrow> bool" where
  "more u = (case page_pi u of None \<Rightarrow> False | Some p \<Rightarrow> hasNextPage p)"

definition next_cursor :: "user option \<Rightarrow> string option" where
  "next_cursor u = (case page_pi u of None \<Rightarrow> None | Some p \<Rightarrow> endCursor p)"

definition page_state :: "nat \<Rightarrow> user option \<Rightarrow> fetched \<Rightarrow> fetched" where
  "page_state page u st =
     (let st1 = (if page = 0 then first_page u st else st)
      in st1\<lparr>allRepos := allRepos st1 @ page_repos u\<rparr>)"

definition sent :: "world \<Rightarrow> fetched \<Rightarrow> world" where
  "sent w st = w\<lparr>requests := requests w @ [after st]\<rparr>"

definition displayName :: "user option \<Rightarrow> string option" where
  "displayName u = (case u of None \<Rightarrow> None | Some x \<Rightarrow> user_name x)"

definition skipped :: "repo option \<Rightarrow> bool" where
  "skipped r = (case r of None \<Rightarrow> True | Some x \<Rightarrow> isArchived x)"

definition ex_user :: "bool \<Rightarrow> user option" where
  "ex_user nxt =
     Some \<lparr>user_name = None, followers_totalCount = Some 7,
           user_repositories =
             Some \<lparr>totalCount = Some 2, nodes = Some [],
                   pageInfo = Some \<lparr>hasNextPage = nxt, endCursor = Some ''c''\<rparr>\<rparr>\<rparr>"

definition ex_world :: world where
  "ex_world = \<lparr>requests = [], files = Map.empty\<rparr>"

text \<open>
  The percentage of the specification, computed exactly, and whether an exact percentage
  lies halfway between two integers.
\<close>

definition exact_percent :: "int \<Rightarrow> int \<Rightarrow> int" where
  "exact_percent sz tot = round_half_up (of_int sz / of_int tot * 100)"

definition half_integer :: "rat \<Rightarrow> bool" where
  "half_integer x = (of_int \<lfloor>x + 1 / 2\<rfloor> = x + 1 / 2)"

text \<open>
  The pairs of name and size that the two loops of the aggregation add to the tally, in
  the order in which they meet them; one such addition; the names of a list in the
  order of their first occurrence; the tally of a fetched sequence; the size a name
  accumulates; a key order in which the array indices come first; a repository with
  given languages.
\<close>

definition edge_pairs :: "edge option list \<Rightarrow> (string \<times> int) list" where
  "edge_pairs es =
     concat (map (\<lambda>e. case edgeName e of
                          None \<Rightarrow> []
                        | Some nm \<Rightarrow> if nm = [] then [] else [(nm, edgeSize e)]) es)"

definition contributions :: "repo option list \<Rightarrow> (string \<times> int) list" where
  "contributions rs =
     concat (map (\<lambda>r. case r of
                          None \<Rightarrow> []
                        | Some x \<Rightarrow> if isArchived x then [] else edge_pairs (edges_of x)) rs)"

definition add_pair :: "jsval object \<Rightarrow> string \<times> int \<Rightarrow> jsval object" where
  "add_pair obj c = obj_set (fst c) (js_add (obj_get0 obj (fst c)) (snd c)) obj"

definition first_seen :: "'a list \<Rightarrow> 'a list" where
  "first_seen xs = rev (remdups (rev xs))"

definition tally :: "repo option list \<Rightarrow> jsval object" where
  "tally rs = snd (aggregate rs (0, []))"

definition accumulated :: "(string \<times> int) list \<Rightarrow> string \<Rightarrow> int" where
  "accumulated cs k = sum_list (map snd (filter (\<lambda>c. fst c = k) cs))"

definition index_first :: "string list \<Rightarrow> bool" where
  "index_first ks = (ks = filter is_array_index ks @ filter (\<lambda>x. \<not> is_array_index x) ks)"

definition ex_repo :: "bool \<Rightarrow> (string \<times> int) list \<Rightarrow> repo option" where
  "ex_repo archived langs =
     Some \<lparr>repo_name = ''r'', isArchived = archived, historyTotalCount = Some 1,
           languages_edges = Some (map (\<lambda>l. Some \<lparr>node_name = Some (fst l), edge_size = Some (snd l)\<rparr>) langs)\<rparr>"

text \<open>
  Well-formed markup. A document is taken as well formed when it is the XML declaration
  followed by the serialisation of a valid tree. \<open>valid\<close> holds the constraints of XML 1.0
  that bear on this image: element and attribute names, attribute names that differ
  within a tag, attribute values and character data without a raw \<open><\<close> or \<open>&\<close> (nor the
  double quote in a value), every \<open>&\<close> opening one of the five references that \<^verbatim>\<open>esc\<close>
  writes, no \<open>]]>\<close> in character data, no \<open>--\<close> in a comment, and only characters that
  XML allows. \<open>svg_tree\<close> is the tree of the image.

  The characters that XML 1.0 allows (production \<open>Char\<close>) are tab, line feed, carriage
  return, U+0020 to U+D7FF, U+E000 to U+FFFD and U+10000 to U+10FFFF. A string of the
  model is the text in UTF-8, as the script writes it to the file (a surrogate that
  stands alone in a string of the script is written as U+FFFD). \<open>xml_chars\<close> reads the
  bytes as UTF-8 and holds when they encode allowed characters only: \<open>step\<close> is the
  automaton of the well-formed byte sequences, without the sequences of the surrogates
  (\<open>ED A0\<close> to \<open>ED BF\<close>) and those of U+FFFE and U+FFFF (\<open>EF BF BE\<close> and \<open>EF BF BF\<close>).
\<close>

datatype xml =
    Element string "(string \<times> string) list" "xml list"
  | EmptyElement string "(string \<times> string) list"
  | Text string
  | Comment string

definition attribute :: "string \<times> string \<Rightarrow> string" where
  \<open>attribute kv = '' '' @ fst kv @ ''="'' @ snd kv @ ''"''\<close>

fun serialize :: "xml \<Rightarrow> string" where
  "serialize (Element n atts children) =
     ''<'' @ n @ concat (map attribute atts) @ ''>'' @ concat (map serialize children) @ ''</'' @ n @ ''>''"
| "serialize (EmptyElement n atts) = ''<'' @ n @ concat (map attribute atts) @ ''/>''"
| "serialize (Text t) = t"
| "serialize (Comment c) = ''<!--'' @ c @ ''-->''"

definition between :: "int \<Rightarrow> int \<Rightarrow> char \<Rightarrow> bool" where
  "between lo hi c = (lo \<le> of_char c \<and> of_char c \<le> hi)"

datatype utf8 =
    Start | Tail1 | Tail2 | Tail3
  | After_E0 | After_ED | After_EF | After_EF_BF | After_F0 | After_F4

fun step :: "utf8 \<Rightarrow> char \<Rightarrow> utf8 option" where
  "step Start c =
     (if c = CHR 0x09 \<or> c = CHR 0x0A \<or> c = CHR 0x0D \<or> between 0x20 0x7F c then Some Start
      else if between 0xC2 0xDF c then Some Tail1
      else if c = CHR 0xE0 then Some After_E0
      else if c = CHR 0xED then Some After_ED
      else if c = CHR 0xEF then Some After_EF
      else if between 0xE1 0xEE c then Some Tail2
      else if c = CHR 0xF0 then Some After_F0
      else if between 0xF1 0xF3 c then Some Tail3
      else if c = CHR 0xF4 then Some After_F4
      else None)"
| "step Tail1 c = (if between 0x80 0xBF c then Some Start else None)"
| "step Tail2 c = (if between 0x80 0xBF c then Some Tail1 else None)"
| "step Tail3 c = (if between 0x80 0xBF c then Some Tail2 else None)"
| "step After_E0 c = (if between 0xA0 0xBF c then Some Tail1 else None)"
| "step After_ED c = (if between 0x80 0x9F c then Some Tail1 else None)"
| "step After_EF c =
     (if c = CHR 0xBF then Some After_EF_BF
      else if between 0x80 0xBE c then Some Tail1
      else None)"
| "step After_EF_BF c = (if between 0x80 0xBD c then Some Start else None)"
| "step After_F0 c = (if between 0x90 0xBF c then Some Tail2 else None)"
| "step After_F4 c = (if between 0x80 0x8F c then Some Tail2 else None)"

fun scan :: "utf8 \<Rightarrow> string \<Rightarrow> bool" where
  "scan q [] = (q = Start)"
| "scan q (c # cs) = (case step q c of None \<Rightarrow> False | Some q' \<Rightarrow> scan q' cs)"

definition xml_chars :: "string \<Rightarrow> bool" where
  "xml_chars s = scan Start s"

text \<open>A string of allowed characters of ASCII.\<close>

definition plain :: "string \<Rightarrow> bool" where
  "plain s = list_all (\<lambda>c. step Start c = Some Start) s"

definition name_start :: "char \<Rightarrow> bool" where
  "name_start c =
     ((65 \<le> (of_char c :: int) \<and> (of_char c :: int) \<le> 90)
      \<or> (97 \<le> (of_char c :: int) \<and> (of_char c :: int) \<le> 122)
      \<or> c = CHR ''_'' \<or> c = CHR '':'')"

definition name_char :: "char \<Rightarrow> bool" where
  "name_char c = (name_start c \<or> is_digit c \<or> c = CHR ''-'' \<or> c = CHR ''.'')"

definition name_ok :: "string \<Rightarrow> bool" where
  "name_ok n = (case n of [] \<Rightarrow> False | c # cs \<Rightarrow> name_start c \<and> list_all name_char cs)"

function refs_ok :: "(char \<Rightarrow> bool) \<Rightarrow> string \<Rightarrow> bool" where
  "refs_ok P [] = True"
| "refs_ok P (c # cs) =
     (if c = CHR ''&''
      then (prefix ''amp;'' cs \<and> refs_ok P (drop 4 cs))
         \<or> (prefix ''lt;'' cs \<and> refs_ok P (drop 3 cs))
         \<or> (prefix ''gt;'' cs \<and> refs_ok P (drop 3 cs))
         \<or> (prefix ''quot;'' cs \<and> refs_ok P (drop 5 cs))
         \<or> (prefix ''#39;'' cs \<and> refs_ok P (drop 4 cs))
      else P c \<and> refs_ok P cs)"
  by pat_completeness auto
termination
  by (relation "measure (\<lambda>(P, s). length s)") auto

definition att_value_ok :: "string \<Rightarrow> bool" where
  "att_value_ok v = (xml_chars v \<and> refs_ok (\<lambda>c. c \<noteq> CHR ''<'' \<and> c \<noteq> CHR 0x22) v)"

definition char_data_ok :: "string \<Rightarrow> bool" where
  "char_data_ok t = (xml_chars t \<and> refs_ok (\<lambda>c. c \<noteq> CHR ''<'') t \<and> \<not> sublist '']]>'' t)"

definition comment_ok :: "string \<Rightarrow> bool" where
  "comment_ok c = (xml_chars c \<and> \<not> sublist ''--'' c \<and> \<not> suffix ''-'' c)"

definition atts_ok :: "(string \<times> string) list \<Rightarrow> bool" where
  "atts_ok atts =
     (distinct (map fst atts) \<and> list_all (\<lambda>kv. name_ok (fst kv) \<and> att_value_ok (snd kv)) atts)"

fun valid :: "xml \<Rightarrow> bool" where
  "valid (Element n atts children) = (name_ok n \<and> atts_ok atts \<and> list_all valid children)"
| "valid (EmptyElement n atts) = (name_ok n \<and> atts_ok atts)"
| "valid (Text t) = char_data_ok t"
| "valid (Comment c) = comment_ok c"

fun intersperse :: "'a \<Rightarrow> 'a list \<Rightarrow> 'a list" where
  "intersperse sep [] = []"
| "intersperse sep [x] = [x]"
| "intersperse sep (x # y # ys) = x # sep # intersperse sep (y # ys)"

definition xml_decl :: string where
  \<open>xml_decl = ''<?xml version="1.0" encoding="UTF-8"?>''\<close>

definition defs_tree :: xml where
  "defs_tree =
     Element ''defs'' []
       [Text ''\<newline>    '',
        Element ''filter''
          [(''id'', ''shadow''), (''x'', ''-20%''), (''y'', ''-20%''), (''width'', ''140%''), (''height'', ''140%'')]
          [Text ''\<newline>      '',
           EmptyElement ''feDropShadow''
             [(''dx'', ''0''), (''dy'', ''10''), (''stdDeviation'', ''10''), (''flood-color'', ''#000''),
              (''flood-opacity'', ''0.45'')],
           Text ''\<newline>    ''],
        Text ''\<newline>    '',
        Element ''linearGradient''
          [(''id'', ''scan''), (''x1'', ''0''), (''y1'', ''0''), (''x2'', ''0''), (''y2'', ''1'')]
          [Text ''\<newline>      '',
           EmptyElement ''stop'' [(''offset'', ''0%''), (''stop-color'', ''#ffffff''), (''stop-opacity'', ''0.02'')],
           Text ''\<newline>      '',
           EmptyElement ''stop'' [(''offset'', ''100%''), (''stop-color'', ''#ffffff''), (''stop-opacity'', ''0.00'')],
           Text ''\<newline>    ''],
        Text ''\<newline>  '']"

definition rects_tree :: "xml list" where
  "rects_tree =
     [EmptyElement ''rect''
        [(''x'', ''0''), (''y'', ''0''), (''width'', digits W), (''height'', digits H), (''rx'', ''16''),
         (''fill'', bg), (''filter'', ''url(#shadow)'')],
      Text ''\<newline>  '',
      EmptyElement ''rect''
        [(''x'', ''1''), (''y'', ''1''), (''width'', digits (W - 2)), (''height'', digits (H - 2)), (''rx'', ''15''),
         (''fill'', ''none''), (''stroke'', border)]]"

definition header_tree :: "string \<Rightarrow> xml" where
  "header_tree handle =
     Element ''g'' [(''transform'', ''translate('' @ digits pad @ '', 18)'')]
       [Text ''\<newline>    '',
        EmptyElement ''circle'' [(''cx'', ''8''), (''cy'', ''8''), (''r'', ''5''), (''fill'', ''#ef4444'')],
        Text ''\<newline>    '',
        EmptyElement ''circle'' [(''cx'', ''28''), (''cy'', ''8''), (''r'', ''5''), (''fill'', ''#f59e0b'')],
        Text ''\<newline>    '',
        EmptyElement ''circle'' [(''cx'', ''48''), (''cy'', ''8''), (''r'', ''5''), (''fill'', ''#22c55e'')],
        Text ''\<newline>    '',
        Element ''text''
          [(''x'', ''76''), (''y'', ''12''), (''font-family'', mono), (''font-size'', ''12''), (''fill'', ''#9ca3af'')]
          [Text (handle @ '' '' @ [CHR 0xE2, CHR 0x80, CHR 0x94] @ '' stats'')],
        Text ''\<newline>  '']"

definition text_tree :: "nat \<Rightarrow> string \<Rightarrow> string \<Rightarrow> xml" where
  "text_tree y fill content =
     Element ''text''
       [(''x'', digits pad), (''y'', digits y), (''font-family'', mono), (''font-size'', ''14''), (''fill'', fill)]
       [Text content]"

definition svg_frame_tree :: "string \<Rightarrow> xml \<Rightarrow> xml list \<Rightarrow> xml" where
  "svg_frame_tree label header texts =
     Element ''svg''
       [(''width'', digits W), (''height'', digits H),
        (''viewBox'', ''0 0 '' @ digits W @ '' '' @ digits H),
        (''xmlns'', ''http://www.w3.org/2000/svg''), (''role'', ''img''),
        (''aria-label'', label)]
       ([Text ''\<newline>  '', defs_tree, Text ''\<newline>\<newline>  '']
        @ rects_tree
        @ [Text ''\<newline>\<newline>  '', Comment '' Terminal header dots '', Text ''\<newline>  '',
           header,
           Text ''\<newline>\<newline>  '', Comment '' Scanline overlay '', Text ''\<newline>  '',
           EmptyElement ''rect''
             [(''x'', ''0''), (''y'', ''0''), (''width'', digits W), (''height'', digits H), (''rx'', ''16''),
              (''fill'', ''url(#scan)'')],
           Text ''\<newline>\<newline>  '']
        @ texts
        @ [Text ''\<newline>''])"

definition svg_tree :: "string \<Rightarrow> stats \<Rightarrow> xml" where
  "svg_tree USERNAME a =
     svg_frame_tree (''Terminal GitHub stats for '' @ esc USERNAME) (header_tree (esc USERNAME))
       (intersperse (Text ''\<newline>'')
         (map (\<lambda>(i, line). text_tree (startY + i * lineHeight) (color USERNAME line) (esc line))
           (enumerate 0 (clipped USERNAME a))))"

definition legal :: "string \<Rightarrow> bool" where
  "legal s = xml_chars s"

section \<open>Escaping of free text\<close>

lemma esc_Cons: "esc (x # s) = entity x @ esc s"
  by (simp add: esc_def entity_def replaceAll_def)

lemma esc_Nil: "esc [] = []"
  by (simp add: esc_def replaceAll_def)

lemma esc_concat_entity: "esc s = concat (map entity s)"
  by (induction s) (simp_all add: esc_Cons esc_Nil)

lemma entity_no_raw:
  "CHR ''<'' \<notin> set (entity c)" "CHR ''>'' \<notin> set (entity c)"
  "CHR 0x22 \<notin> set (entity c)" "CHR 0x27 \<notin> set (entity c)"
  by (simp_all add: entity_def)

lemma esc_no_raw:
  "CHR ''<'' \<notin> set (esc s)" "CHR ''>'' \<notin> set (esc s)"
  "CHR 0x22 \<notin> set (esc s)" "CHR 0x27 \<notin> set (esc s)"
  by (simp_all add: esc_concat_entity entity_no_raw)

lemma entity_amp:
  "i < length (entity x) \<Longrightarrow> entity x ! i = CHR ''&'' \<Longrightarrow> i = 0 \<and> entity x \<in> set entities"
  by (auto simp: entity_def entities_def nth_Cons' split: if_splits)

lemma esc_amp:
  "i < length (esc s) \<Longrightarrow> esc s ! i = CHR ''&'' \<Longrightarrow> \<exists>e. e \<in> set entities \<and> prefix e (drop i (esc s))"
proof (induction s arbitrary: i)
  case Nil
  then show ?case by (simp add: esc_Nil)
next
  case (Cons x s)
  show ?case
  proof (cases "i < length (entity x)")
    case True
    with Cons.prems have "entity x ! i = CHR ''&''" by (simp add: esc_Cons nth_append)
    from entity_amp[OF True this] show ?thesis
      by (auto simp: esc_Cons)
  next
    case False
    with Cons.prems have "i - length (entity x) < length (esc s)"
      and "esc s ! (i - length (entity x)) = CHR ''&''"
      by (simp_all add: esc_Cons nth_append)
    from Cons.IH[OF this] False show ?thesis by (simp add: esc_Cons)
  qed
qed

lemma color_cases: "color U l = green \<or> color U l = dim"
  by (simp add: color_def)

section \<open>Clipping of the lines\<close>

lemma maxLines_eq: "maxLines = 11"
  by (simp add: maxLines_def H_def startY_def lineHeight_def)

lemma lines_scaffold:
  "lines U a = scaffold U a @ map langLine (topLangs a) @ [[], U @ ''@github:~$ _'']"
  by (simp add: lines_def scaffold_def)

lemma length_scaffold: "length (scaffold U a) = 9"
  by (simp add: scaffold_def)

lemma clipped_cases:
  "clipped U a = scaffold U a @
     (case topLangs a of
        [] \<Rightarrow> [[], U @ ''@github:~$ _'']
      | [l] \<Rightarrow> [langLine l, []]
      | l1 # l2 # ls \<Rightarrow> [langLine l1, langLine l2])"
  by (simp add: clipped_def maxLines_eq lines_scaffold length_scaffold split: list.splits)

text \<open>
  Claim C7, as amended. The line list is cut to \<open>(280 - 48 - 22) div 18 = 11\<close> lines.
  The nine lines before the language lines are always kept. With no language the blank
  separator and the cursor line follow them; with exactly one language its line and the
  blank separator follow, and only the cursor line is dropped; with two or more
  languages the first two language lines follow, and both trailing lines are dropped.
\<close>

theorem clipped_eleven_lines:
  "maxLines = 11
   \<and> clipped U a = take 11 (lines U a)
   \<and> scaffold U a = take 9 (lines U a)
   \<and> clipped U a = scaffold U a @
       (case topLangs a of
          [] \<Rightarrow> [[], U @ ''@github:~$ _'']
        | [l] \<Rightarrow> [langLine l, []]
        | l1 # l2 # ls \<Rightarrow> [langLine l1, langLine l2])
   \<and> length (clipped U a) = 11"
  using clipped_cases[of U a]
  by (simp add: maxLines_eq clipped_def lines_scaffold length_scaffold split: list.splits)

text \<open>
  With one language the eleventh line is the blank separator: it is not dropped.
\<close>

theorem clipped_one_language_counterexample:
  "clipped ''octocat''
     \<lparr>name = ''The Octocat'', followers = 12, publicRepos = 3, totalCommitsApprox = 456,
      topLangs = [(''Go'', 100)]\<rparr>
   = [''octocat@github:~$ whoami'', ''The Octocat'', [],
      ''octocat@github:~$ stats --summary'', ''followers: 12'', ''public_repos: 3'',
      ''total_commits (approx): 456'', [],
      ''octocat@github:~$ stats --top-languages'',
      ''Go               100%'', []]"
  by code_simp

section \<open>The line of a language\<close>



section \<open>The loop over the pages\<close>

lemma fetchPages_done: "\<not> page < 3 \<Longrightarrow> fetchPages gql page (w, st) = (w, Inr st)"
  by (subst fetchPages.simps) simp

lemma fetchPages_error:
  "page < 3 \<Longrightarrow> gql page (after st) = Inl e \<Longrightarrow> fetchPages gql page (w, st) = (sent w st, Inl e)"
  by (subst fetchPages.simps) (simp add: sent_def)

lemma fetchPages_break:
  "page < 3 \<Longrightarrow> gql page (after st) = Inr u \<Longrightarrow> \<not> more u \<Longrightarrow>
   fetchPages gql page (w, st) = (sent w st, Inr (page_state page u st))"
  by (subst fetchPages.simps)
     (simp add: sent_def more_def page_state_def Let_def split: option.splits)

lemma fetchPages_continue:
  "page < 3 \<Longrightarrow> gql page (after st) = Inr u \<Longrightarrow> more u \<Longrightarrow>
   fetchPages gql page (w, st) =
   fetchPages gql (page + 1) (sent w st, (page_state page u st)\<lparr>after := next_cursor u\<rparr>)"
  by (subst fetchPages.simps)
     (simp add: sent_def more_def page_state_def next_cursor_def Let_def split: option.splits)

lemma requests_sent: "requests (sent w st) = requests w @ [after st]"
  by (simp add: sent_def)

text \<open>The loop only appends requests, at most \<open>3 - page\<close> of them, and its result does not depend on the world.\<close>

lemma fetchPages_trace:
  "\<exists>rs r. length rs \<le> 3 - page \<and>
     (\<forall>w. fetchPages gql page (w, st) = (w\<lparr>requests := requests w @ rs\<rparr>, r))"
proof (induction "3 - page" arbitrary: page st)
  case 0
  then have "\<not> page < 3" by simp
  then have "\<forall>w. fetchPages gql page (w, st) = (w\<lparr>requests := requests w @ []\<rparr>, Inr st)"
    by (simp add: fetchPages_done)
  then show ?case by (intro exI[of _ "[]"] exI[of _ "Inr st"]) simp
next
  case (Suc n)
  then have lt: "page < 3" by simp
  show ?case
  proof (cases "gql page (after st)")
    case (Inl e)
    with lt have "\<forall>w. fetchPages gql page (w, st) = (w\<lparr>requests := requests w @ [after st]\<rparr>, Inl e)"
      by (simp add: fetchPages_error sent_def)
    moreover have "length [after st] \<le> 3 - page" using lt by simp
    ultimately show ?thesis by blast
  next
    case (Inr u)
    show ?thesis
    proof (cases "more u")
      case False
      with lt Inr have "\<forall>w. fetchPages gql page (w, st)
          = (w\<lparr>requests := requests w @ [after st]\<rparr>, Inr (page_state page u st))"
        by (simp add: fetchPages_break sent_def)
      moreover have "length [after st] \<le> 3 - page" using lt by simp
      ultimately show ?thesis by blast
    next
      case True
      have "n = 3 - (page + 1)" using Suc.hyps(2) by simp
      from Suc.hyps(1)[OF this, of "(page_state page u st)\<lparr>after := next_cursor u\<rparr>"]
      obtain rs r where len: "length rs \<le> 3 - (page + 1)"
        and eq: "\<And>w. fetchPages gql (page + 1) (w, (page_state page u st)\<lparr>after := next_cursor u\<rparr>)
                  = (w\<lparr>requests := requests w @ rs\<rparr>, r)"
        by blast
      have "fetchPages gql page (w, st) = (w\<lparr>requests := requests w @ (after st # rs)\<rparr>, r)" for w
      proof -
        have "fetchPages gql page (w, st)
            = fetchPages gql (page + 1) (sent w st, (page_state page u st)\<lparr>after := next_cursor u\<rparr>)"
          using lt Inr True by (rule fetchPages_continue)
        also have "\<dots> = ((sent w st)\<lparr>requests := requests (sent w st) @ rs\<rparr>, r)"
          by (rule eq)
        also have "\<dots> = (w\<lparr>requests := requests w @ (after st # rs)\<rparr>, r)"
          by (simp add: sent_def)
        finally show ?thesis .
      qed
      then have "\<forall>w. fetchPages gql page (w, st) = (w\<lparr>requests := requests w @ (after st # rs)\<rparr>, r)"
        by blast
      moreover have "length (after st # rs) \<le> 3 - page" using len lt by simp
      ultimately show ?thesis by blast
    qed
  qed
qed

lemma fetchPages_full:
  "(\<forall>p c. \<exists>u. gql p c = Inr u \<and> more u) \<Longrightarrow>
   length (requests (fst (fetchPages gql page (w, st)))) = length (requests w) + (3 - page)"
proof (induction "3 - page" arbitrary: page w st)
  case 0
  then have "\<not> page < 3" by simp
  then show ?case by (simp add: fetchPages_done)
next
  case (Suc n)
  then have lt: "page < 3" by simp
  from Suc.prems obtain u where u: "gql page (after st) = Inr u" "more u" by blast
  have "n = 3 - (page + 1)" using Suc.hyps(2) by simp
  from Suc.hyps(1)[OF this Suc.prems, of "sent w st" "(page_state page u st)\<lparr>after := next_cursor u\<rparr>"]
  show ?case using lt u by (simp add: fetchPages_continue requests_sent)
qed

lemma main_trace:
  "\<exists>rs r. length rs \<le> 3 \<and> fetchPages gql 0 (w, initial) = (w\<lparr>requests := requests w @ rs\<rparr>, r)"
  using fetchPages_trace[of 0 gql initial] by auto

lemma requests_main:
  "requests (fst (main U gql w)) = requests (fst (fetchPages gql 0 (w, initial)))"
  by (simp add: main_def split: prod.splits sum.splits)

text \<open>
  Claim C6. Whatever the API answers, \<^verbatim>\<open>main\<close> only adds requests to those already
  issued, and at most three of them; it issues exactly three when every answer
  announces a further page; and an answer that announces none is the last request of
  the loop.
\<close>

theorem fetch_at_most_three_requests:
  fixes gql :: api
  shows "(\<exists>rs. requests (fst (main U gql w)) = requests w @ rs \<and> length rs \<le> 3)
   \<and> ((\<forall>p c. \<exists>u. gql p c = Inr u \<and> more u)
        \<longrightarrow> length (requests (fst (main U gql w))) = length (requests w) + 3)
   \<and> (page < 3 \<and> gql page (after st) = Inr u \<and> \<not> more u
        \<longrightarrow> requests (fst (fetchPages gql page (w, st))) = requests w @ [after st])"
proof (intro conjI impI)
  from main_trace[of gql w] obtain rs r where "length rs \<le> 3"
    and "fetchPages gql 0 (w, initial) = (w\<lparr>requests := requests w @ rs\<rparr>, r)" by blast
  then show "\<exists>rs. requests (fst (main U gql w)) = requests w @ rs \<and> length rs \<le> 3"
    by (simp add: requests_main)
next
  assume "\<forall>p c. \<exists>u. gql p c = Inr u \<and> more u"
  from fetchPages_full[OF this, of 0 w initial]
  show "length (requests (fst (main U gql w))) = length (requests w) + 3"
    by (simp add: requests_main)
next
  assume "page < 3 \<and> gql page (after st) = Inr u \<and> \<not> more u"
  then show "requests (fst (fetchPages gql page (w, st))) = requests w @ [after st]"
    by (simp add: fetchPages_break requests_sent)
qed

lemma more_ex_user: "more (ex_user b) = b"
  by (simp add: more_def page_pi_def user_repos_def ex_user_def)

theorem fetch_at_most_three_requests_witness:
  "length (requests (fst (main ''octocat'' (\<lambda>p c. Inr (ex_user True)) ex_world))) = 3
   \<and> requests (fst (fetchPages (\<lambda>p c. Inr (ex_user (p < 1))) 1 (ex_world, initial))) = [None]"
proof -
  have a: "\<forall>p c. \<exists>u. (Inr (ex_user True) :: error + user option) = Inr u \<and> more u"
    by (simp add: more_ex_user)
  have b: "(1::nat) < 3 \<and> (Inr (ex_user ((1::nat) < 1)) :: error + user option) = Inr (ex_user False)
      \<and> \<not> more (ex_user False)"
    by (simp add: more_ex_user)
  from fetch_at_most_three_requests[of "''octocat''" "\<lambda>p c. Inr (ex_user True)" ex_world 0 initial "ex_user True"] a
  have "length (requests (fst (main ''octocat'' (\<lambda>p c. Inr (ex_user True)) ex_world))) = 3"
    by (simp add: ex_world_def)
  moreover
  from fetch_at_most_three_requests[of "''octocat''" "\<lambda>p c. Inr (ex_user (p < 1))" ex_world 1 initial "ex_user False"] b
  have "requests (fst (fetchPages (\<lambda>p c. Inr (ex_user (p < 1))) 1 (ex_world, initial))) = [None]"
    by (simp add: ex_world_def initial_def)
  ultimately show ?thesis by simp
qed

section \<open>Skipped repositories\<close>

lemma aggregate_append: "aggregate (xs @ ys) acc = aggregate ys (aggregate xs acc)"
  by (induction xs acc rule: aggregate.induct) (auto split: option.splits)

lemma aggregate_skipped: "skipped r \<Longrightarrow> aggregate (r # rs) acc = aggregate rs acc"
  by (cases acc) (simp add: skipped_def split: option.splits)

text \<open>
  Claim C5. A repository record that is missing or archived changes neither the commit
  total nor the language tally, whatever its own fields hold and wherever it stands in
  the fetched sequence.
\<close>

theorem archived_contributes_nothing:
  "skipped r \<Longrightarrow> aggregate (rs @ r # rs') acc = aggregate (rs @ rs') acc"
  by (simp add: aggregate_append aggregate_skipped)

theorem archived_contributes_nothing_witness:
  "skipped (Some \<lparr>repo_name = ''old'', isArchived = True, historyTotalCount = Some 999,
                  languages_edges = Some [Some \<lparr>node_name = Some ''C'', edge_size = Some 5000\<rparr>]\<rparr>)
   \<and> aggregate
       ([Some \<lparr>repo_name = ''a'', isArchived = False, historyTotalCount = Some 10,
               languages_edges = Some [Some \<lparr>node_name = Some ''Go'', edge_size = Some 300\<rparr>]\<rparr>]
        @ Some \<lparr>repo_name = ''old'', isArchived = True, historyTotalCount = Some 999,
                 languages_edges = Some [Some \<lparr>node_name = Some ''C'', edge_size = Some 5000\<rparr>]\<rparr>
        # [None]) (0, [])
     = (10, [(''Go'', Num 300)])"
proof -
  have s: "skipped (Some \<lparr>repo_name = ''old'', isArchived = True, historyTotalCount = Some 999,
                  languages_edges = Some [Some \<lparr>node_name = Some ''C'', edge_size = Some 5000\<rparr>]\<rparr>)"
    by (simp add: skipped_def)
  show ?thesis
    using s archived_contributes_nothing[OF s,
        of "[Some \<lparr>repo_name = ''a'', isArchived = False, historyTotalCount = Some 10,
               languages_edges = Some [Some \<lparr>node_name = Some ''Go'', edge_size = Some 300\<rparr>]\<rparr>]"
           "[None]" "(0, [])"]
    by (simp add: repoCommitCount_def edges_of_def edgeName_def edgeSize_def obj_set_def set_own_def
          obj_get0_def js_add_def prototype_functions_def is_array_index_def is_digit_def)
qed

section \<open>The answer to whoami\<close>

lemma userName_page_state: "0 < page \<Longrightarrow> userName (page_state page u st) = userName st"
  by (simp add: page_state_def)

lemma fetchPages_userName:
  "0 < page \<Longrightarrow> fetchPages gql page (w, st) = (w', Inr st') \<Longrightarrow> userName st' = userName st"
proof (induction "3 - page" arbitrary: page w st)
  case 0
  then have "\<not> page < 3" by simp
  with "0.prems" show ?case by (simp add: fetchPages_done)
next
  case (Suc n)
  then have lt: "page < 3" by simp
  show ?case
  proof (cases "gql page (after st)")
    case (Inl e)
    with lt Suc.prems show ?thesis by (simp add: fetchPages_error)
  next
    case (Inr u)
    show ?thesis
    proof (cases "more u")
      case False
      with lt Inr Suc.prems show ?thesis
        by (auto simp: fetchPages_break userName_page_state)
    next
      case True
      have n: "n = 3 - (page + 1)" using Suc.hyps(2) by simp
      have "fetchPages gql (page + 1) (sent w st, (page_state page u st)\<lparr>after := next_cursor u\<rparr>)
              = (w', Inr st')"
        using fetchPages_continue[where page=page and gql=gql and st=st and u=u and w=w, OF lt Inr True]
          Suc.prems(2) by simp
      from Suc.hyps(1)[OF n _ this] Suc.prems(1) show ?thesis
        by (simp add: userName_page_state)
    qed
  qed
qed

lemma userName_first:
  "userName (page_state 0 u st) = (case displayName u of None \<Rightarrow> [] | Some n \<Rightarrow> n)"
  by (simp add: page_state_def first_page_def displayName_def split: option.splits)

lemma fetch_userName:
  assumes "gql 0 None = Inr u" and "fetchPages gql 0 (w, initial) = (w', Inr st)"
  shows "userName st = (case displayName u of None \<Rightarrow> [] | Some n \<Rightarrow> n)"
proof -
  have a: "gql 0 (after initial) = Inr u" using assms(1) by (simp add: initial_def)
  show ?thesis
  proof (cases "more u")
    case False
    from fetchPages_break[where page=0 and gql=gql and st=initial and u=u and w=w, OF _ a False]
      assms(2) show ?thesis
      by (auto simp: userName_first)
  next
    case True
    have "fetchPages gql (0 + 1) (sent w initial, (page_state 0 u initial)\<lparr>after := next_cursor u\<rparr>)
            = (w', Inr st)"
      using fetchPages_continue[where page=0 and gql=gql and st=initial and u=u and w=w, OF _ a True]
        assms(2) by simp
    from fetchPages_userName[OF _ this] show ?thesis by (simp add: userName_first)
  qed
qed

lemma name_summary: "name (summary st) = userName st"
  by (simp add: summary_def split: prod.splits)

lemma clipped_second: "clipped U a ! 1 = title U a"
  by (simp add: clipped_cases scaffold_def)

text \<open>
  Claim C8. When the first response carries no display name and the pages are fetched
  without error, the second line of the image (the answer to \<^verbatim>\<open>whoami\<close>) is the
  account handle, both before and after clipping, and its text element holds the
  escaped handle.
\<close>

theorem whoami_is_handle_without_display_name:
  assumes "gql 0 None = Inr u" and "displayName u = None"
    and "fetchPages gql 0 (w, initial) = (w', Inr st)"
  shows "lines U (summary st) ! 1 = U \<and> clipped U (summary st) ! 1 = U
    \<and> textNode U 1 (clipped U (summary st) ! 1) = text_element 66 (color U U) (esc U)"
proof -
  have "userName st = []" using fetch_userName[OF assms(1,3)] assms(2) by simp
  then have t: "title U (summary st) = U" by (simp add: title_def name_summary)
  have l: "lines U (summary st) ! 1 = U" using t by (simp add: lines_def)
  have c: "clipped U (summary st) ! 1 = U" using t clipped_second[of U "summary st"] by simp
  have "textNode U 1 U = text_element 66 (color U U) (esc U)"
    by (simp add: textNode_def startY_def lineHeight_def)
  with l c show ?thesis by simp
qed

theorem whoami_is_handle_without_display_name_witness:
  "(\<lambda>p c. Inr (ex_user False)) (0::nat) (None :: string option) = (Inr (ex_user False) :: error + user option)
   \<and> displayName (ex_user False) = None
   \<and> fetchPages (\<lambda>p c. Inr (ex_user False)) 0 (ex_world, initial)
       = (sent ex_world initial, Inr (page_state 0 (ex_user False) initial))
   \<and> clipped ''octocat'' (summary (page_state 0 (ex_user False) initial)) ! 1 = ''octocat''"
proof -
  have a: "(\<lambda>p c. Inr (ex_user False)) (0::nat) (None :: string option)
      = (Inr (ex_user False) :: error + user option)" by simp
  have b: "displayName (ex_user False) = None" by (simp add: displayName_def ex_user_def)
  have c: "fetchPages (\<lambda>p c. Inr (ex_user False)) 0 (ex_world, initial)
       = (sent ex_world initial, Inr (page_state 0 (ex_user False) initial))"
    by (rule fetchPages_break) (simp_all add: more_def page_pi_def user_repos_def ex_user_def)
  from whoami_is_handle_without_display_name[OF a b c, of "''octocat''"] a b c
  show ?thesis by blast
qed

section \<open>Rounding to binary64 and the percentages\<close>

lemma rne_of_int: "rne (of_int n) = n"
  by (simp add: rne_def)

lemma rne_cases: "rne y = \<lfloor>y\<rfloor> \<or> rne y = \<lfloor>y\<rfloor> + 1"
  by (simp add: rne_def Let_def)

lemma rne_le: "y \<le> of_int N \<Longrightarrow> rne y \<le> N"
proof (cases "y = of_int N")
  case True
  then show ?thesis by (simp add: rne_of_int)
next
  case False
  assume "y \<le> of_int N"
  with False have "y < of_int N" by simp
  then have "\<lfloor>y\<rfloor> < N" by (simp add: floor_less_iff)
  with rne_cases[of y] show ?thesis by auto
qed

lemma rne_ge: "of_int N \<le> y \<Longrightarrow> N \<le> rne y"
proof -
  assume "of_int N \<le> y"
  then have "N \<le> \<lfloor>y\<rfloor>" by (simp add: le_floor_iff)
  with rne_cases[of y] show ?thesis by auto
qed

lemma rne_err: "\<bar>of_int (rne y) - y\<bar> \<le> 1 / 2"
proof -
  have "of_int \<lfloor>y\<rfloor> \<le> y" "y < of_int \<lfloor>y\<rfloor> + 1" by linarith+
  then show ?thesis
    by (auto simp: rne_def Let_def abs_le_iff)
qed

lemma bitlen_powi:
  assumes "0 < p"
  shows "2 powi (bitlen p - 1) \<le> (of_int p :: rat)" and "(of_int p :: rat) < 2 powi (bitlen p)"
proof -
  from bitlen_bounds[OF assms] have a: "2 ^ nat (bitlen p - 1) \<le> p" and b: "p < 2 ^ nat (bitlen p)"
    by auto
  have pos: "1 \<le> bitlen p" using assms bitlen_eq_zero_iff[of p] bitlen_nonneg[of p] by linarith
  have "(of_int (2 ^ nat (bitlen p - 1)) :: rat) \<le> of_int p" using a by (simp only: of_int_le_iff)
  then show "2 powi (bitlen p - 1) \<le> (of_int p :: rat)"
    using pos by (simp add: power_int_nonneg_exp)
  have "(of_int p :: rat) < of_int (2 ^ nat (bitlen p))" using b by (simp only: of_int_less_iff)
  then show "(of_int p :: rat) < 2 powi (bitlen p)"
    using pos by (simp add: power_int_nonneg_exp)
qed

lemma expo_bounds:
  assumes "0 < x"
  shows "2 powi expo x \<le> x" and "x < 2 powi (expo x + 1)"
proof -
  obtain p q where pq: "quotient_of x = (p, q)" by (cases "quotient_of x")
  have q: "0 < q" using quotient_of_denom_pos[OF pq] .
  have x: "x = of_int p / of_int q" using quotient_of_div[OF pq] .
  have p: "0 < p" using assms q x by (simp add: zero_less_divide_iff)
  let ?P = "of_int p :: rat" and ?Q = "of_int q :: rat"
  have Q: "0 < ?Q" using q by simp
  note bp = bitlen_powi[OF p] and bq = bitlen_powi[OF q]
  let ?k = "bitlen p - bitlen q"
  have e: "expo x = (if ?Q * 2 powi ?k \<le> ?P then ?k else ?k - 1)"
    using assms by (simp add: expo_def pq Let_def)
  have two: "(2::rat) \<noteq> 0" by simp
  have up: "2 powi (?k + 1) * 2 powi (bitlen q - 1) = (2::rat) powi (bitlen p)"
    by (subst power_int_add[symmetric]) simp_all
  have lo: "2 powi (?k - 1) * 2 powi (bitlen q) = (2::rat) powi (bitlen p - 1)"
    by (subst power_int_add[symmetric]) simp_all
  have pk: "(0::rat) < 2 powi n" for n :: int by (simp add: zero_less_power_int)
  show "2 powi expo x \<le> x"
  proof (cases "?Q * 2 powi ?k \<le> ?P")
    case True
    then have ek: "expo x = ?k" using e by simp
    have "2 powi ?k \<le> ?P / ?Q" using True Q by (simp add: pos_le_divide_eq mult.commute)
    then have "2 powi ?k \<le> x" by (simp only: x[symmetric])
    with ek show ?thesis by simp
  next
    case False
    then have ek: "expo x = ?k - 1" using e by simp
    have "2 powi (?k - 1) * ?Q \<le> 2 powi (?k - 1) * 2 powi (bitlen q)"
      using bq(2) pk[of "?k - 1"] by (intro mult_left_mono) simp_all
    also have "\<dots> \<le> ?P" using bp(1) by (simp only: lo)
    finally have "2 powi (?k - 1) \<le> ?P / ?Q" using Q by (simp add: pos_le_divide_eq)
    then have "2 powi (?k - 1) \<le> x" by (simp only: x[symmetric])
    with ek show ?thesis by simp
  qed
  show "x < 2 powi (expo x + 1)"
  proof (cases "?Q * 2 powi ?k \<le> ?P")
    case True
    then have ek: "expo x = ?k" using e by simp
    have "?P < 2 powi (bitlen p)" by (rule bp(2))
    also have "\<dots> = 2 powi (?k + 1) * 2 powi (bitlen q - 1)" by (simp only: up)
    also have "\<dots> \<le> 2 powi (?k + 1) * ?Q"
      using bq(1) pk[of "?k + 1"] by (intro mult_left_mono) simp_all
    finally have "?P / ?Q < 2 powi (?k + 1)" using Q by (simp add: pos_divide_less_eq)
    then have "x < 2 powi (?k + 1)" by (simp only: x[symmetric])
    with ek show ?thesis by simp
  next
    case False
    then have ek: "expo x = ?k - 1" using e by simp
    have "?P / ?Q < 2 powi ?k" using False Q by (simp add: pos_divide_less_eq mult.commute)
    then have "x < 2 powi ?k" by (simp only: x[symmetric])
    with ek show ?thesis by simp
  qed
qed

lemma ulp_pos: "(0::rat) < 2 powi n"
  by (simp add: zero_less_power_int)

lemma fl_pos_eq:
  "0 < x \<Longrightarrow> fl x = of_int (rne (x / 2 powi (expo x - 52))) * 2 powi (expo x - 52)"
  by (simp add: fl_def Let_def)

lemma fl_0: "fl 0 = 0"
  by (simp add: fl_def)

lemma fl_nonneg: "0 \<le> x \<Longrightarrow> 0 \<le> fl x"
proof (cases "x = 0")
  case True
  then show ?thesis by (simp add: fl_0)
next
  case False
  assume "0 \<le> x"
  with False have x: "0 < x" by simp
  have "(of_int 0 :: rat) \<le> x / 2 powi (expo x - 52)"
    using x ulp_pos[of "expo x - 52"] by simp
  then have "0 \<le> rne (x / 2 powi (expo x - 52))" by (rule rne_ge)
  then show ?thesis using ulp_pos[of "expo x - 52"] by (simp add: fl_pos_eq[OF x])
qed

lemma fl_le:
  assumes x: "0 < x" and le: "x \<le> of_int m" and e: "expo x \<le> 52"
  shows "fl x \<le> of_int m"
proof -
  let ?u = "(2::rat) powi (expo x - 52)"
  let ?n = "nat (52 - expo x)"
  have u: "?u = 1 / 2 ^ ?n"
  proof -
    have "expo x - 52 = - int ?n" using e by simp
    then have "?u = 2 powi (- int ?n)" by simp
    also have "\<dots> = 1 / 2 ^ ?n" by (simp only: power_int_minus_divide power_int_of_nat)
    finally show ?thesis .
  qed
  have "x / ?u = x * 2 ^ ?n" by (simp add: u)
  also have "\<dots> \<le> of_int m * 2 ^ ?n" using le by simp
  also have "\<dots> = of_int (m * 2 ^ ?n)" by simp
  finally have "rne (x / ?u) \<le> m * 2 ^ ?n" by (rule rne_le)
  then have "(of_int (rne (x / ?u)) :: rat) \<le> of_int (m * 2 ^ ?n)" by (simp only: of_int_le_iff)
  then have "of_int (rne (x / ?u)) * ?u \<le> of_int (m * 2 ^ ?n) * ?u"
    using ulp_pos[of "expo x - 52"] by (simp only: mult_le_cancel_right_pos)
  also have "of_int (m * 2 ^ ?n) * ?u = of_int m" by (simp add: u)
  finally show ?thesis by (simp only: fl_pos_eq[OF x])
qed

lemma expo_less:
  assumes "0 < x" and "x < 2 powi k"
  shows "expo x < k"
proof (rule ccontr)
  assume "\<not> expo x < k"
  then have "k \<le> expo x" by simp
  then have "(2::rat) powi k \<le> 2 powi expo x" by (intro power_int_increasing) simp_all
  also have "\<dots> \<le> x" using expo_bounds(1)[OF assms(1)] .
  finally show False using assms(2) by simp
qed

lemma fl_err:
  assumes x: "0 < x"
  shows "\<bar>fl x - x\<bar> \<le> x / 2 ^ 53"
proof -
  let ?u = "(2::rat) powi (expo x - 52)"
  have up: "0 < ?u" by (rule ulp_pos)
  have "fl x - x = (of_int (rne (x / ?u)) - x / ?u) * ?u"
    using up by (simp add: fl_pos_eq[OF x] algebra_simps)
  then have "\<bar>fl x - x\<bar> = \<bar>of_int (rne (x / ?u)) - x / ?u\<bar> * ?u"
    using up by (simp add: abs_mult)
  also have "\<dots> \<le> 1 / 2 * ?u"
    using rne_err[of "x / ?u"] up by (intro mult_right_mono) simp_all
  also have "1 / 2 * ?u = 2 powi expo x / 2 ^ 53"
  proof -
    have "?u = 2 powi expo x / 2 powi 52" by (rule power_int_diff) simp
    then show ?thesis by simp
  qed
  also have "\<dots> \<le> x / 2 ^ 53"
    using expo_bounds(1)[OF x] by (simp add: divide_right_mono)
  finally show ?thesis .
qed

lemma percent_of_eq:
  "percent_of sz tot = Math_round (fl (fl (of_int sz / of_int tot) * 100))"
  by (simp add: percent_of_def js_mul_def js_div_def)

lemma quotient_range:
  assumes "0 \<le> sz" "sz \<le> tot" "0 < tot"
  shows "0 \<le> fl (of_int sz / of_int tot)" and "fl (of_int sz / of_int tot) \<le> 1"
proof -
  let ?q = "of_int sz / of_int tot :: rat"
  have q0: "0 \<le> ?q" using assms by simp
  have q1: "?q \<le> 1" using assms by simp
  show "0 \<le> fl ?q" using q0 by (rule fl_nonneg)
  show "fl ?q \<le> 1"
  proof (cases "?q = 0")
    case True
    show ?thesis unfolding True fl_0 by simp
  next
    case False
    with q0 have p: "0 < ?q" by (simp only: less_le) simp
    have "?q < 2 powi 1" using q1 by simp
    from expo_less[OF p this] have "expo ?q \<le> 52" by simp
    from fl_le[OF p _ this, of 1] q1 show ?thesis by simp
  qed
qed

lemma product_range:
  assumes "0 \<le> q" "q \<le> 1"
  shows "0 \<le> fl (q * 100)" and "fl (q * 100) \<le> 100"
proof -
  have a: "0 \<le> q * 100" using assms by simp
  have b: "q * 100 \<le> 100" using assms by simp
  show "0 \<le> fl (q * 100)" using a by (rule fl_nonneg)
  show "fl (q * 100) \<le> 100"
  proof (cases "q * 100 = 0")
    case True
    then show ?thesis by (simp add: fl_0)
  next
    case False
    with a have p: "0 < q * 100" by simp
    have "q * 100 < 2 powi 7" using b by simp
    from expo_less[OF p this] have "expo (q * 100) \<le> 52" by simp
    from fl_le[OF p _ this, of 100] b show ?thesis by simp
  qed
qed

lemma percent_range:
  assumes "0 \<le> sz" "sz \<le> tot" "0 < tot"
  shows "0 \<le> percent_of sz tot \<and> percent_of sz tot \<le> 100"
proof -
  note q = quotient_range[OF assms]
  note y = product_range[OF q]
  have "0 \<le> \<lfloor>fl (fl (of_int sz / of_int tot) * 100) + 1 / 2\<rfloor>"
    using y(1) by (simp add: zero_le_floor)
  moreover have "\<lfloor>fl (fl (of_int sz / of_int tot) * 100) + 1 / 2\<rfloor> \<le> 100"
  proof -
    have "fl (fl (of_int sz / of_int tot) * 100) + 1 / 2 < of_int 101" using y(2) by simp
    then have "\<lfloor>fl (fl (of_int sz / of_int tot) * 100) + 1 / 2\<rfloor> < 101" by (simp only: floor_less_iff)
    then show ?thesis by simp
  qed
  ultimately show ?thesis by (simp add: percent_of_eq Math_round_def)
qed

lemma foldl_sizes: "foldl (\<lambda>s x. s + snd x) (a::int) xs = a + sum_list (map snd xs)"
  by (induction xs arbitrary: a) simp_all

lemma total_of_eq:
  "total_of xs = (if sum_list (map snd xs) = 0 then 1 else sum_list (map snd xs))"
  by (simp add: total_of_def foldl_sizes)

lemma set_top6: "set (top6 t) \<subseteq> set t"
proof -
  have "set (take 6 (sort_key (\<lambda>e. - snd e) t)) \<subseteq> set (sort_key (\<lambda>e. - snd e) t)"
    by (rule set_take_subset)
  then show ?thesis by (simp add: top6_def sort_by_size_desc_def)
qed

lemma member_le_sum:
  fixes xs :: "int list"
  shows "\<forall>x\<in>set xs. 0 \<le> x \<Longrightarrow> y \<in> set xs \<Longrightarrow> y \<le> sum_list xs"
proof (induction xs)
  case Nil
  then show ?case by simp
next
  case (Cons a xs)
  have "0 \<le> sum_list xs" using Cons.prems(1) by (intro sum_list_nonneg) simp
  with Cons show ?case by auto
qed

lemma total_of_bounds:
  assumes "\<forall>e\<in>set xs. 0 \<le> snd e" and "x \<in> set xs"
  shows "0 \<le> snd x" and "snd x \<le> total_of xs" and "0 < total_of xs"
proof -
  have nn: "\<forall>v\<in>set (map snd xs). 0 \<le> v" using assms(1) by simp
  have mem: "snd x \<in> set (map snd xs)" using assms(2) by simp
  have le: "snd x \<le> sum_list (map snd xs)" using member_le_sum[OF nn mem] .
  show x0: "0 \<le> snd x" using assms by simp
  show "snd x \<le> total_of xs" using le x0 by (simp add: total_of_eq)
  show "0 < total_of xs" using le x0 by (simp add: total_of_eq)
qed

lemma total_of_nonzero: "total_of xs \<noteq> 0"
  by (simp add: total_of_eq)

lemma computeTopLanguages_eq:
  "computeTopLanguages t = map (\<lambda>x. (fst x, percent_of (snd x) (total_of (top6 t)))) (top6 t)"
  by (simp add: computeTopLanguages_def Let_def)

lemma percentages_in_range:
  assumes "\<forall>e\<in>set t. 0 \<le> snd e" and "e \<in> set (computeTopLanguages t)"
  shows "0 \<le> snd e \<and> snd e \<le> 100"
proof -
  from assms(2) obtain x where x: "x \<in> set (top6 t)"
    and e: "e = (fst x, percent_of (snd x) (total_of (top6 t)))"
    by (auto simp: computeTopLanguages_eq)
  have nn: "\<forall>e\<in>set (top6 t). 0 \<le> snd e" using assms(1) set_top6[of t] by blast
  from percent_range[OF total_of_bounds[OF nn x]] show ?thesis by (simp add: e)
qed

text \<open>
  Claim C3. With sizes that are not negative every returned percentage lies between 0
  and 100. The divisor is never zero, whatever the sizes: a sum of zero is replaced by
  1, so it is 1 for the empty tally, and the empty tally gives the empty list.
\<close>

theorem percentages_between_0_and_100:
  "(list_all (\<lambda>e. 0 \<le> snd e) t
      \<longrightarrow> list_all (\<lambda>e. 0 \<le> snd e \<and> snd e \<le> 100) (computeTopLanguages t))
   \<and> total_of (top6 t) \<noteq> 0
   \<and> computeTopLanguages [] = []
   \<and> total_of (top6 []) = 1"
proof (intro conjI impI)
  assume "list_all (\<lambda>e. 0 \<le> snd e) t"
  then have "\<forall>e\<in>set t. 0 \<le> snd e" by (simp add: list_all_iff)
  then show "list_all (\<lambda>e. 0 \<le> snd e \<and> snd e \<le> 100) (computeTopLanguages t)"
    using percentages_in_range[of t] by (simp add: list_all_iff)
next
  show "total_of (top6 t) \<noteq> 0" by (rule total_of_nonzero)
  show "computeTopLanguages [] = []"
    by (simp add: computeTopLanguages_eq top6_def sort_by_size_desc_def)
  show "total_of (top6 []) = 1"
    by (simp add: total_of_eq top6_def sort_by_size_desc_def)
qed

theorem percentages_between_0_and_100_witness:
  "list_all (\<lambda>e. 0 \<le> snd e) [(''Go'', 300), (''Rust'', 100), (''TS'', 100 :: int)]
   \<and> list_all (\<lambda>e. 0 \<le> snd e \<and> snd e \<le> 100)
        (computeTopLanguages [(''Go'', 300), (''Rust'', 100), (''TS'', 100)])"
  using percentages_between_0_and_100[of "[(''Go'', 300), (''Rust'', 100), (''TS'', 100)]"]
  by simp

lemma abs_tri100:
  fixes a b q :: rat
  shows "\<bar>a - q * 100\<bar> \<le> \<bar>a - b * 100\<bar> + 100 * \<bar>b - q\<bar>"
proof -
  have "a - q * 100 = (a - b * 100) + 100 * (b - q)" by (simp add: algebra_simps)
  then have "\<bar>a - q * 100\<bar> = \<bar>(a - b * 100) + 100 * (b - q)\<bar>" by (simp only:)
  also have "\<dots> \<le> \<bar>a - b * 100\<bar> + \<bar>100 * (b - q)\<bar>" by (rule abs_triangle_ineq)
  also have "\<bar>100 * (b - q)\<bar> = 100 * \<bar>b - q\<bar>" by (simp only: abs_mult abs_numeral)
  finally show ?thesis .
qed

lemma product_err:
  assumes "0 \<le> sz" "sz \<le> tot" "0 < tot"
  shows "\<bar>fl (fl (of_int sz / of_int tot) * 100) - of_int sz / of_int tot * 100\<bar> \<le> 200 / 2 ^ 53"
proof -
  let ?q = "of_int sz / of_int tot :: rat"
  let ?fq = "fl ?q"
  have q0: "0 \<le> ?q" and q1: "?q \<le> 1" using assms by simp_all
  note fq = quotient_range[OF assms]
  have e1: "\<bar>?fq - ?q\<bar> \<le> 1 / 2 ^ 53"
  proof (cases "?q = 0")
    case True
    show ?thesis unfolding True fl_0 by simp
  next
    case False
    with q0 have p: "0 < ?q" by (simp only: less_le) simp
    have "\<bar>?fq - ?q\<bar> \<le> ?q / 2 ^ 53" by (rule fl_err[OF p])
    also have "\<dots> \<le> 1 / 2 ^ 53" using q1 by (intro divide_right_mono) simp_all
    finally show ?thesis .
  qed
  have e2: "\<bar>fl (?fq * 100) - ?fq * 100\<bar> \<le> 100 / 2 ^ 53"
  proof (cases "?fq * 100 = 0")
    case True
    show ?thesis unfolding True fl_0 by simp
  next
    case False
    with fq(1) have p: "0 < ?fq * 100" by (simp only: less_le) simp
    have "\<bar>fl (?fq * 100) - ?fq * 100\<bar> \<le> ?fq * 100 / 2 ^ 53" by (rule fl_err[OF p])
    also have "\<dots> \<le> 1 * 100 / 2 ^ 53" using fq(2) by (intro divide_right_mono mult_right_mono) simp_all
    finally show ?thesis by simp
  qed
  have "\<bar>fl (?fq * 100) - ?q * 100\<bar> \<le> \<bar>fl (?fq * 100) - ?fq * 100\<bar> + 100 * \<bar>?fq - ?q\<bar>"
    by (rule abs_tri100)
  with e1 e2 show ?thesis by simp
qed

lemma round_stable:
  fixes y d' :: rat and n d :: int
  assumes d: "0 < d" and close: "\<bar>z - of_int n / of_int d\<bar> \<le> d'" and small: "d' * of_int d < 1"
  shows "if d dvd n then \<lfloor>z\<rfloor> = n div d \<or> \<lfloor>z\<rfloor> = n div d - 1 else \<lfloor>z\<rfloor> = n div d"
proof -
  let ?k = "n div d" and ?r = "n mod d"
  let ?D = "of_int d :: rat"
  have D: "0 < ?D" using d by simp
  have n: "(of_int n :: rat) / ?D = of_int ?k + of_int ?r / ?D"
  proof -
    have "n = ?k * d + ?r" by simp
    then have "(of_int n :: rat) = of_int ?k * ?D + of_int ?r"
      by (metis of_int_add of_int_mult)
    then show ?thesis using D by (simp add: field_simps)
  qed
  have d'1: "d' < 1 / ?D" using small D by (simp add: pos_less_divide_eq)
  have lo: "of_int n / ?D - d' \<le> z" and hi: "z \<le> of_int n / ?D + d'"
    using close by (simp_all add: abs_le_iff algebra_simps)
  have r: "0 \<le> ?r" "?r < d" using d by simp_all
  show ?thesis
  proof (cases "d dvd n")
    case True
    then have "?r = 0" by simp
    then have nk: "(of_int n :: rat) / ?D = of_int ?k" using n by simp
    have "1 / ?D \<le> 1" using d by simp
    with d'1 have "d' < 1" by simp
    then have "of_int (?k - 1) \<le> z" and "z < of_int (?k + 1)" using lo hi nk by simp_all
    then have "?k - 1 \<le> \<lfloor>z\<rfloor>" and "\<lfloor>z\<rfloor> < ?k + 1"
      by (simp_all only: le_floor_iff floor_less_iff)
    with True show ?thesis by auto
  next
    case False
    then have "?r \<noteq> 0" by (simp add: dvd_eq_mod_eq_0)
    with r have r1: "1 \<le> ?r" "?r \<le> d - 1" by simp_all
    have a: "1 / ?D \<le> of_int ?r / ?D"
      using r1(1) D by (intro divide_right_mono) simp_all
    have "(of_int ?r :: rat) \<le> of_int (d - 1)" using r1(2) by (simp only: of_int_le_iff)
    then have "of_int ?r / ?D \<le> of_int (d - 1) / ?D" using D by (intro divide_right_mono) simp_all
    also have "\<dots> = 1 - 1 / ?D" using D by (simp add: field_simps)
    finally have b: "of_int ?r / ?D \<le> 1 - 1 / ?D" .
    have "of_int ?k \<le> z" using lo n a d'1 by simp
    moreover have "z < of_int ?k + 1" using hi n b d'1 by simp
    ultimately have "\<lfloor>z\<rfloor> = ?k" by (simp add: floor_unique)
    with False show ?thesis by simp
  qed
qed

lemma percent_plus_half:
  "0 < tot \<Longrightarrow>
   of_int sz / of_int tot * 100 + 1 / 2 = (of_int (200 * sz + tot) :: rat) / of_int (2 * tot)"
  by (simp add: field_simps)

lemma exact_percent_div:
  "0 < tot \<Longrightarrow> exact_percent sz tot = (200 * sz + tot) div (2 * tot)"
  by (simp only: exact_percent_def round_half_up_def percent_plus_half floor_divide_of_int_eq)

lemma of_int_div_exact:
  fixes n d :: int
  assumes "0 < d"
  shows "((of_int (n div d) :: rat) = of_int n / of_int d) = (d dvd n)"
proof
  assume "(of_int (n div d) :: rat) = of_int n / of_int d"
  then have "(of_int (n div d) :: rat) * of_int d = of_int n" using assms by (simp add: field_simps)
  then have "(of_int (n div d * d) :: rat) = of_int n" by simp
  then have "n div d * d = n" by (simp only: of_int_eq_iff)
  then show "d dvd n" by (simp add: dvd_def) (rule exI[of _ "n div d"], simp add: mult.commute)
next
  assume "d dvd n"
  then obtain c where "n = d * c" by (auto simp: dvd_def)
  then show "(of_int (n div d) :: rat) = of_int n / of_int d" using assms by simp
qed

lemma half_integer_dvd:
  "0 < tot \<Longrightarrow> half_integer (of_int sz / of_int tot * 100) = (2 * tot dvd 200 * sz + tot)"
proof -
  assume t: "0 < tot"
  then have d: "0 < 2 * tot" by simp
  show ?thesis
    by (simp only: half_integer_def percent_plus_half[OF t] floor_divide_of_int_eq of_int_div_exact[OF d])
qed

lemma percent_exact_or_tie:
  assumes "0 \<le> sz" "sz \<le> tot" "0 < tot" "tot < 2 ^ 44"
  shows "if half_integer (of_int sz / of_int tot * 100)
         then percent_of sz tot = exact_percent sz tot \<or> percent_of sz tot = exact_percent sz tot - 1
         else percent_of sz tot = exact_percent sz tot"
proof -
  let ?y = "fl (fl (of_int sz / of_int tot) * 100)"
  have eq: "of_int sz / of_int tot * 100 + 1 / 2 = (of_int (200 * sz + tot) :: rat) / of_int (2 * tot)"
    using assms(3) by (simp add: field_simps)
  have "\<bar>(?y + 1 / 2) - (of_int sz / of_int tot * 100 + 1 / 2)\<bar> \<le> 200 / 2 ^ 53"
    using product_err[OF assms(1-3)] by simp
  then have close: "\<bar>(?y + 1 / 2) - of_int (200 * sz + tot) / of_int (2 * tot)\<bar> \<le> 200 / 2 ^ 53"
    by (simp only: eq)
  have "(of_int tot :: rat) < of_int (2 ^ 44)" using assms(4) by (simp only: of_int_less_iff)
  then have small: "(200 / 2 ^ 53 :: rat) * of_int (2 * tot) < 1" by simp
  have d: "0 < 2 * tot" using assms(3) by simp
  from round_stable[OF d close small]
  show ?thesis
    by (simp only: half_integer_dvd[OF assms(3)] exact_percent_div[OF assms(3)] percent_of_eq Math_round_def)
qed

text \<open>
  Claim C1, as amended. Each returned entry carries \<^verbatim>\<open>Math.round\<close> (ties towards
  \<open>+\<infinity>\<close>) of the binary64 product of 100 and the binary64 quotient of the entry's size
  by the sum of the sizes of the at most six retained entries (1 when that sum is 0),
  not by the sum over the whole tally. For sizes that are not negative and a sum below
  \<open>2^44\<close> this is the exact percentage rounded half up, unless the exact percentage lies
  halfway between two integers: then it is that value or one less. The tally of
  scenario C gives 60, 20 and 20.
\<close>

theorem top_language_percentages:
  "computeTopLanguages t = map (\<lambda>x. (fst x, percent_of (snd x) (total_of (top6 t)))) (top6 t)
   \<and> top6 t = take 6 (sort_key (\<lambda>e. - snd e) t)
   \<and> total_of (top6 t)
       = (if sum_list (map snd (top6 t)) = 0 then 1 else sum_list (map snd (top6 t)))
   \<and> percent_of sz tot = Math_round (fl (fl (of_int sz / of_int tot) * 100))
   \<and> (0 \<le> sz \<and> sz \<le> tot \<and> 0 < tot \<and> tot < 2 ^ 44 \<longrightarrow>
        (if half_integer (of_int sz / of_int tot * 100)
         then percent_of sz tot = exact_percent sz tot \<or> percent_of sz tot = exact_percent sz tot - 1
         else percent_of sz tot = exact_percent sz tot))
   \<and> computeTopLanguages [(''Go'', 300), (''Rust'', 100), (''TS'', 100)]
       = [(''Go'', 60), (''Rust'', 20), (''TS'', 20)]"
proof (intro conjI impI)
  show "computeTopLanguages t = map (\<lambda>x. (fst x, percent_of (snd x) (total_of (top6 t)))) (top6 t)"
    by (rule computeTopLanguages_eq)
  show "top6 t = take 6 (sort_key (\<lambda>e. - snd e) t)"
    by (simp add: top6_def sort_by_size_desc_def)
  show "total_of (top6 t)
       = (if sum_list (map snd (top6 t)) = 0 then 1 else sum_list (map snd (top6 t)))"
    by (rule total_of_eq)
  show "percent_of sz tot = Math_round (fl (fl (of_int sz / of_int tot) * 100))"
    by (rule percent_of_eq)
  show "computeTopLanguages [(''Go'', 300), (''Rust'', 100), (''TS'', 100)]
       = [(''Go'', 60), (''Rust'', 20), (''TS'', 20)]"
    by code_simp
next
  assume "0 \<le> sz \<and> sz \<le> tot \<and> 0 < tot \<and> tot < 2 ^ 44"
  then show "if half_integer (of_int sz / of_int tot * 100)
         then percent_of sz tot = exact_percent sz tot \<or> percent_of sz tot = exact_percent sz tot - 1
         else percent_of sz tot = exact_percent sz tot"
    using percent_exact_or_tie[of sz tot] by blast
qed

theorem top_language_percentages_witness:
  "(0::int) \<le> 300 \<and> (300::int) \<le> 500 \<and> (0::int) < 500 \<and> (500::int) < 2 ^ 44
   \<and> \<not> half_integer (of_int 300 / of_int 500 * 100)
   \<and> percent_of 300 500 = exact_percent 300 500
   \<and> half_integer (of_int 23 / of_int 40 * 100)
   \<and> percent_of 23 40 = exact_percent 23 40 - 1"
proof -
  have a: "(0::int) \<le> 300 \<and> (300::int) \<le> 500 \<and> (0::int) < 500 \<and> (500::int) < 2 ^ 44" by simp
  have b: "\<not> half_integer (of_int 300 / of_int 500 * 100)" by code_simp
  have c: "half_integer (of_int 23 / of_int 40 * 100)" by code_simp
  have d: "percent_of 23 40 = exact_percent 23 40 - 1" by code_simp
  from top_language_percentages[of "[]" 300 500] a b
  have "percent_of 300 500 = exact_percent 300 500" by simp
  with a b c d show ?thesis by blast
qed

text \<open>
  For the tally \<^verbatim>\<open>{A: 23, B: 17}\<close> the exact percentage of \<open>A\<close> is 57.5, which rounds half
  up to 58; the script computes \<^verbatim>\<open>(23 / 40) * 100 = 57.49999999999999\<close> and returns 57.
\<close>

theorem exact_rounding_counterexample:
  "computeTopLanguages [(''A'', 23), (''B'', 17)] = [(''A'', 57), (''B'', 43)]
   \<and> round_half_up (23 / (23 + 17) * 100) = 58"
  by code_simp

section \<open>The order of the top languages\<close>

lemma addEdges_foldl: "addEdges es obj = foldl add_pair obj (edge_pairs es)"
  by (induction es arbitrary: obj) (simp_all add: edge_pairs_def add_pair_def split: option.splits)

lemma aggregate_foldl:
  "snd (aggregate rs (c, obj)) = foldl add_pair obj (contributions rs)"
  by (induction rs arbitrary: c obj)
     (simp_all add: contributions_def addEdges_foldl split: option.splits)

lemma tally_foldl: "tally rs = foldl add_pair [] (contributions rs)"
  by (simp add: tally_def aggregate_foldl)

lemma first_seen_snoc:
  "first_seen (xs @ [x]) = (if x \<in> set xs then first_seen xs else first_seen xs @ [x])"
  by (simp add: first_seen_def)

lemma first_seen_Nil: "first_seen [] = []"
  by (simp add: first_seen_def)

lemma set_first_seen: "set (first_seen xs) = set xs"
  by (simp add: first_seen_def)

lemma distinct_first_seen: "distinct (first_seen xs)"
  by (simp add: first_seen_def)

lemma keys_ins_index: "set (map fst (ins_index k v obj)) = insert k (set (map fst obj))"
  by (induction obj) auto

lemma distinct_ins_index:
  "k \<notin> set (map fst obj) \<Longrightarrow> distinct (map fst obj) \<Longrightarrow> distinct (map fst (ins_index k v obj))"
proof (induction obj)
  case Nil
  then show ?case by simp
next
  case (Cons p ps)
  then have "fst p \<notin> set (map fst (ins_index k v ps))"
    by (simp only: keys_ins_index) auto
  with Cons show ?case by auto
qed

lemma map_of_ins_index:
  "k \<notin> set (map fst obj) \<Longrightarrow> map_of (ins_index k v obj) = (map_of obj)(k \<mapsto> v)"
proof (induction obj)
  case Nil
  then show ?case by simp
next
  case (Cons p ps)
  then have ne: "fst p \<noteq> k" by auto
  have "k \<notin> set (map fst ps)" using Cons.prems by simp
  then have ih: "map_of (ins_index k v ps) = (map_of ps)(k \<mapsto> v)" by (rule Cons.IH)
  show ?case
  proof (cases "is_array_index (fst p) \<and> decimal (fst p) < decimal k")
    case True
    then have "map_of (ins_index k v (p # ps)) = (map_of (ins_index k v ps))(fst p \<mapsto> snd p)"
      by simp
    also have "\<dots> = ((map_of ps)(fst p \<mapsto> snd p))(k \<mapsto> v)"
      using ne by (simp add: ih fun_upd_twist)
    also have "\<dots> = (map_of (p # ps))(k \<mapsto> v)" by simp
    finally show ?thesis .
  next
    case False
    then show ?thesis by auto
  qed
qed

lemma filter_nonindex_ins_index:
  "is_array_index k \<Longrightarrow>
   filter (\<lambda>x. \<not> is_array_index x) (map fst (ins_index k v obj))
   = filter (\<lambda>x. \<not> is_array_index x) (map fst obj)"
  by (induction obj) auto

lemma index_first_Cons_index: "is_array_index a \<Longrightarrow> index_first (a # ks) = index_first ks"
  by (simp add: index_first_def)

lemma index_first_Cons_other:
  "\<not> is_array_index a \<Longrightarrow> index_first (a # ks) = (filter is_array_index ks = [])"
proof -
  assume a: "\<not> is_array_index a"
  show ?thesis
  proof
    assume "index_first (a # ks)"
    then have eq: "a # ks = filter is_array_index ks @ a # filter (\<lambda>x. \<not> is_array_index x) ks"
      using a by (simp add: index_first_def)
    show "filter is_array_index ks = []"
    proof (cases "filter is_array_index ks")
      case Nil
      then show ?thesis .
    next
      case (Cons b bs)
      with eq have "a = b" by simp
      moreover have "b \<in> set (filter is_array_index ks)" using Cons by simp
      ultimately show ?thesis using a by simp
    qed
  next
    assume e: "filter is_array_index ks = []"
    then have "\<forall>x\<in>set ks. \<not> is_array_index x" by (simp add: filter_empty_conv)
    then have "filter (\<lambda>x. \<not> is_array_index x) ks = ks" by simp
    with e a show "index_first (a # ks)" by (simp add: index_first_def)
  qed
qed

lemma index_first_ins_index:
  "is_array_index k \<Longrightarrow> index_first (map fst obj) \<Longrightarrow> index_first (map fst (ins_index k v obj))"
proof (induction obj)
  case Nil
  then show ?case by (simp add: index_first_def)
next
  case (Cons p ps)
  show ?case
  proof (cases "is_array_index (fst p) \<and> decimal (fst p) < decimal k")
    case True
    then have "index_first (map fst ps)" using Cons.prems(2) by (simp add: index_first_Cons_index)
    with Cons.IH Cons.prems(1) True show ?thesis by (simp add: index_first_Cons_index)
  next
    case False
    then have "ins_index k v (p # ps) = (k, v) # p # ps" by auto
    then show ?thesis using Cons.prems by (simp add: index_first_Cons_index)
  qed
qed

lemma index_first_snoc:
  "\<not> is_array_index k \<Longrightarrow> index_first ks \<Longrightarrow> index_first (ks @ [k])"
  by (simp add: index_first_def)

lemma sorted_ins_index:
  assumes "is_array_index k" and "index_first (map fst obj)"
    and "sorted (map decimal (filter is_array_index (map fst obj)))"
  shows "sorted (map decimal (filter is_array_index (map fst (ins_index k v obj))))"
  using assms(2,3)
proof (induction obj)
  case Nil
  then show ?case using assms(1) by simp
next
  case (Cons p ps)
  show ?case
  proof (cases "is_array_index (fst p)")
    case ip: True
    then have if': "index_first (map fst ps)" using Cons.prems(1) by (simp add: index_first_Cons_index)
    have sp: "sorted (map decimal (filter is_array_index (map fst ps)))"
      and lep: "\<forall>x\<in>set (filter is_array_index (map fst ps)). decimal (fst p) \<le> decimal x"
      using Cons.prems(2) ip by auto
    show ?thesis
    proof (cases "decimal (fst p) < decimal k")
      case True
      have "\<forall>x\<in>insert k (set (map fst ps)). is_array_index x \<longrightarrow> decimal (fst p) \<le> decimal x"
        using lep True by auto
      then have "\<forall>x\<in>set (map fst (ins_index k v ps)). is_array_index x \<longrightarrow> decimal (fst p) \<le> decimal x"
        by (simp only: keys_ins_index)
      then have "\<forall>x\<in>set (filter is_array_index (map fst (ins_index k v ps))). decimal (fst p) \<le> decimal x"
        by auto
      with Cons.IH[OF if' sp] ip True show ?thesis by simp
    next
      case False
      then have "decimal k \<le> decimal (fst p)" by simp
      with lep have "\<forall>x\<in>set (filter is_array_index (map fst ps)). decimal k \<le> decimal x"
        by auto
      with False ip assms(1) Cons.prems(2) show ?thesis by auto
    qed
  next
    case False
    then have "filter is_array_index (map fst ps) = []"
      using Cons.prems(1) by (simp add: index_first_Cons_other)
    with False assms(1) show ?thesis by simp
  qed
qed

lemma keys_set_own: "set (map fst (set_own k v obj)) = insert k (set (map fst obj))"
proof -
  have "fst ` set (AList.update k v obj) = {k} \<union> fst ` set obj" by (rule dom_update)
  then show ?thesis
    using keys_ins_index[of k v obj] by (auto simp: set_own_def)
qed

lemma keys_set_own_old:
  "k \<in> set (map fst obj) \<Longrightarrow> map fst (set_own k v obj) = map fst obj"
  by (simp add: set_own_def update_keys)

lemma keys_set_own_other:
  "k \<notin> set (map fst obj) \<Longrightarrow> \<not> is_array_index k \<Longrightarrow> map fst (set_own k v obj) = map fst obj @ [k]"
  by (simp add: set_own_def)

lemma keys_set_own_index:
  "k \<notin> set (map fst obj) \<Longrightarrow> is_array_index k \<Longrightarrow> set_own k v obj = ins_index k v obj"
  by (simp add: set_own_def)

lemma distinct_set_own:
  "distinct (map fst obj) \<Longrightarrow> distinct (map fst (set_own k v obj))"
proof (cases "k \<in> set (map fst obj)")
  case True
  assume "distinct (map fst obj)"
  with True show ?thesis by (simp add: keys_set_own_old)
next
  case False
  assume d: "distinct (map fst obj)"
  show ?thesis
  proof (cases "is_array_index k")
    case True
    with False d show ?thesis by (simp add: keys_set_own_index distinct_ins_index)
  next
    case no: False
    with False d show ?thesis by (simp add: keys_set_own_other)
  qed
qed

lemma map_of_snoc_new:
  "k \<notin> set (map fst obj) \<Longrightarrow> map_of (obj @ [(k, v)]) = (map_of obj)(k \<mapsto> v)"
proof (induction obj)
  case Nil
  then show ?case by simp
next
  case (Cons p ps)
  then have ne: "fst p \<noteq> k" and "k \<notin> set (map fst ps)" by auto
  then have ih: "map_of (ps @ [(k, v)]) = (map_of ps)(k \<mapsto> v)" using Cons.IH by blast
  have "map_of ((p # ps) @ [(k, v)]) = (map_of (ps @ [(k, v)]))(fst p \<mapsto> snd p)" by simp
  also have "\<dots> = ((map_of ps)(k \<mapsto> v))(fst p \<mapsto> snd p)" by (simp only: ih)
  also have "\<dots> = ((map_of ps)(fst p \<mapsto> snd p))(k \<mapsto> v)"
    using ne by (simp add: fun_upd_twist)
  also have "\<dots> = (map_of (p # ps))(k \<mapsto> v)" by simp
  finally show ?case .
qed

lemma map_of_set_own: "map_of (set_own k v obj) = (map_of obj)(k \<mapsto> v)"
proof (cases "k \<in> set (map fst obj)")
  case True
  then show ?thesis by (simp add: set_own_def update_conv')
next
  case False
  show ?thesis
  proof (cases "is_array_index k")
    case True
    with False show ?thesis by (simp add: keys_set_own_index map_of_ins_index)
  next
    case no: False
    have "map_of (obj @ [(k, v)]) = (map_of obj)(k \<mapsto> v)"
      using False by (rule map_of_snoc_new)
    with False no show ?thesis by (simp add: set_own_def)
  qed
qed

lemma index_first_set_own:
  "index_first (map fst obj) \<Longrightarrow> index_first (map fst (set_own k v obj))"
proof (cases "k \<in> set (map fst obj)")
  case True
  assume "index_first (map fst obj)"
  with True show ?thesis by (simp add: keys_set_own_old)
next
  case False
  assume d: "index_first (map fst obj)"
  show ?thesis
  proof (cases "is_array_index k")
    case True
    with False d show ?thesis by (simp add: keys_set_own_index index_first_ins_index)
  next
    case no: False
    with False d show ?thesis by (simp add: keys_set_own_other index_first_snoc)
  qed
qed

lemma sorted_set_own:
  assumes "index_first (map fst obj)"
    and "sorted (map decimal (filter is_array_index (map fst obj)))"
  shows "sorted (map decimal (filter is_array_index (map fst (set_own k v obj))))"
proof (cases "k \<in> set (map fst obj)")
  case True
  with assms show ?thesis by (simp add: keys_set_own_old)
next
  case False
  show ?thesis
  proof (cases "is_array_index k")
    case True
    with False assms show ?thesis by (simp add: keys_set_own_index sorted_ins_index)
  next
    case no: False
    with False assms show ?thesis by (simp add: keys_set_own_other)
  qed
qed

lemma nonindex_set_own:
  "filter (\<lambda>x. \<not> is_array_index x) (map fst (set_own k v obj))
   = (if k \<in> set (map fst obj) \<or> is_array_index k
      then filter (\<lambda>x. \<not> is_array_index x) (map fst obj)
      else filter (\<lambda>x. \<not> is_array_index x) (map fst obj) @ [k])"
proof (cases "k \<in> set (map fst obj)")
  case True
  then show ?thesis by (simp add: keys_set_own_old)
next
  case False
  show ?thesis
  proof (cases "is_array_index k")
    case True
    with False show ?thesis by (simp add: keys_set_own_index filter_nonindex_ins_index)
  next
    case no: False
    with False show ?thesis by (simp add: keys_set_own_other)
  qed
qed

lemma add_pair_proto: "fst c = ''__proto__'' \<Longrightarrow> add_pair obj c = obj"
  by (simp add: add_pair_def obj_set_def)

lemma add_pair_other:
  "fst c \<noteq> ''__proto__'' \<Longrightarrow>
   add_pair obj c = set_own (fst c) (js_add (obj_get0 obj (fst c)) (snd c)) obj"
  by (simp add: add_pair_def obj_set_def)

lemma accumulated_snoc:
  "accumulated (cs @ [c]) k = accumulated cs k + (if fst c = k then snd c else 0)"
  by (simp add: accumulated_def)

lemma accumulated_absent: "k \<notin> set (map fst cs) \<Longrightarrow> accumulated cs k = 0"
proof -
  assume "k \<notin> set (map fst cs)"
  then have "filter (\<lambda>c. fst c = k) cs = []" by (auto simp: filter_empty_conv)
  then show ?thesis by (simp add: accumulated_def)
qed

lemma foldl_add_pair_snoc: "foldl add_pair obj (cs @ [c]) = add_pair (foldl add_pair obj cs) c"
  by simp

lemma keys_add_pair:
  "set (map fst (add_pair obj c))
   = (if fst c = ''__proto__'' then set (map fst obj) else insert (fst c) (set (map fst obj)))"
proof (cases "fst c = ''__proto__''")
  case True
  from add_pair_proto[OF True] True show ?thesis by simp
next
  case False
  have "set (map fst (add_pair obj c)) = insert (fst c) (set (map fst obj))"
    unfolding add_pair_other[OF False] by (rule keys_set_own)
  with False show ?thesis by (simp only: if_False)
qed

lemma distinct_add_pair:
  assumes "distinct (map fst obj)"
  shows "distinct (map fst (add_pair obj c))"
proof (cases "fst c = ''__proto__''")
  case True
  from add_pair_proto[OF True] assms show ?thesis by simp
next
  case False
  show ?thesis unfolding add_pair_other[OF False] using assms by (rule distinct_set_own)
qed

lemma index_first_add_pair:
  assumes "index_first (map fst obj)"
  shows "index_first (map fst (add_pair obj c))"
proof (cases "fst c = ''__proto__''")
  case True
  from add_pair_proto[OF True] assms show ?thesis by simp
next
  case False
  show ?thesis unfolding add_pair_other[OF False] using assms by (rule index_first_set_own)
qed

lemma sorted_add_pair:
  assumes "index_first (map fst obj)" and "sorted (map decimal (filter is_array_index (map fst obj)))"
  shows "sorted (map decimal (filter is_array_index (map fst (add_pair obj c))))"
proof (cases "fst c = ''__proto__''")
  case True
  from add_pair_proto[OF True] assms show ?thesis by simp
next
  case False
  show ?thesis unfolding add_pair_other[OF False] using assms by (rule sorted_set_own)
qed

lemma nonindex_add_pair:
  "filter (\<lambda>x. \<not> is_array_index x) (map fst (add_pair obj c))
   = (if fst c = ''__proto__'' \<or> fst c \<in> set (map fst obj) \<or> is_array_index (fst c)
      then filter (\<lambda>x. \<not> is_array_index x) (map fst obj)
      else filter (\<lambda>x. \<not> is_array_index x) (map fst obj) @ [fst c])"
proof (cases "fst c = ''__proto__''")
  case True
  from add_pair_proto[OF True] True show ?thesis by simp
next
  case False
  have "filter (\<lambda>x. \<not> is_array_index x) (map fst (add_pair obj c))
      = (if fst c \<in> set (map fst obj) \<or> is_array_index (fst c)
         then filter (\<lambda>x. \<not> is_array_index x) (map fst obj)
         else filter (\<lambda>x. \<not> is_array_index x) (map fst obj) @ [fst c])"
    unfolding add_pair_other[OF False] by (rule nonindex_set_own)
  with False show ?thesis by simp
qed

lemma map_of_add_pair:
  assumes "fst c \<noteq> ''__proto__''"
  shows "map_of (add_pair obj c) = (map_of obj)(fst c \<mapsto> js_add (obj_get0 obj (fst c)) (snd c))"
  unfolding add_pair_other[OF assms] by (rule map_of_set_own)

lemma tally_keys: "set (map fst (foldl add_pair [] cs)) = set (map fst cs) - {''__proto__''}"
proof (induction cs rule: rev_induct)
  case Nil
  then show ?case by simp
next
  case (snoc c cs)
  have "set (map fst (foldl add_pair [] (cs @ [c])))
      = (if fst c = ''__proto__'' then set (map fst (foldl add_pair [] cs))
         else insert (fst c) (set (map fst (foldl add_pair [] cs))))"
    by (simp only: foldl_add_pair_snoc keys_add_pair)
  with snoc show ?case by auto
qed

lemma tally_distinct: "distinct (map fst (foldl add_pair [] cs))"
proof (induction cs rule: rev_induct)
  case Nil
  then show ?case by simp
next
  case (snoc c cs)
  then have "distinct (map fst (add_pair (foldl add_pair [] cs) c))" by (rule distinct_add_pair)
  then show ?case by (simp only: foldl_add_pair_snoc)
qed

lemma tally_index_first: "index_first (map fst (foldl add_pair [] cs))"
proof (induction cs rule: rev_induct)
  case Nil
  then show ?case by (simp add: index_first_def)
next
  case (snoc c cs)
  then have "index_first (map fst (add_pair (foldl add_pair [] cs) c))" by (rule index_first_add_pair)
  then show ?case by (simp only: foldl_add_pair_snoc)
qed

lemma tally_index_sorted:
  "sorted (map decimal (filter is_array_index (map fst (foldl add_pair [] cs))))"
proof (induction cs rule: rev_induct)
  case Nil
  then show ?case by simp
next
  case (snoc c cs)
  from sorted_add_pair[OF tally_index_first snoc]
  show ?case by (simp only: foldl_add_pair_snoc)
qed

lemma tally_nonindex:
  "filter (\<lambda>x. \<not> is_array_index x) (map fst (foldl add_pair [] cs))
   = filter (\<lambda>x. \<not> is_array_index x \<and> x \<noteq> ''__proto__'') (first_seen (map fst cs))"
proof (induction cs rule: rev_induct)
  case Nil
  then show ?case by (simp add: first_seen_Nil)
next
  case (snoc c cs)
  let ?T = "foldl add_pair [] cs"
  have step: "filter (\<lambda>x. \<not> is_array_index x) (map fst (foldl add_pair [] (cs @ [c])))
      = (if fst c = ''__proto__'' \<or> fst c \<in> set (map fst cs) - {''__proto__''} \<or> is_array_index (fst c)
         then filter (\<lambda>x. \<not> is_array_index x) (map fst ?T)
         else filter (\<lambda>x. \<not> is_array_index x) (map fst ?T) @ [fst c])"
    by (simp only: foldl_add_pair_snoc nonindex_add_pair tally_keys)
  have fs: "first_seen (map fst (cs @ [c]))
      = (if fst c \<in> set (map fst cs) then first_seen (map fst cs) else first_seen (map fst cs) @ [fst c])"
    using first_seen_snoc[of "map fst cs" "fst c"] by simp
  show ?case
  proof (cases "fst c \<in> set (map fst cs)")
    case True
    then show ?thesis by (simp only: step fs snoc.IH) simp
  next
    case False
    then show ?thesis by (simp only: step fs snoc.IH) simp
  qed
qed

text \<open>
  What the tally holds for a name: a string for a function of \<^verbatim>\<open>Object.prototype\<close>, and
  otherwise the sum of the sizes met.
\<close>

lemma tally_values:
  "map_of (foldl add_pair [] cs) k
   = (if k \<in> set (map fst cs) \<and> k \<noteq> ''__proto__''
      then Some (if k \<in> set prototype_functions then Str else Num (accumulated cs k))
      else None)"
proof (induction cs arbitrary: k rule: rev_induct)
  case Nil
  then show ?case by simp
next
  case (snoc c cs)
  let ?T = "foldl add_pair [] cs"
  show ?case
  proof (cases "fst c = ''__proto__''")
    case True
    then have "foldl add_pair [] (cs @ [c]) = ?T"
      by (simp only: foldl_add_pair_snoc add_pair_proto)
    moreover have "k \<noteq> ''__proto__'' \<Longrightarrow> accumulated (cs @ [c]) k = accumulated cs k"
      using True by (simp add: accumulated_snoc)
    ultimately show ?thesis using True snoc.IH[of k] by auto
  next
    case False
    have m: "map_of (foldl add_pair [] (cs @ [c]))
        = (map_of ?T)(fst c \<mapsto> js_add (obj_get0 ?T (fst c)) (snd c))"
      unfolding foldl_add_pair_snoc using False by (rule map_of_add_pair)
    show ?thesis
    proof (cases "k = fst c")
      case other: False
      then have "accumulated (cs @ [c]) k = accumulated cs k" by (simp add: accumulated_snoc)
      with other m snoc.IH[of k] show ?thesis by auto
    next
      case True
      have v: "js_add (obj_get0 ?T (fst c)) (snd c)
          = (if fst c \<in> set prototype_functions then Str else Num (accumulated (cs @ [c]) (fst c)))"
      proof (cases "fst c \<in> set (map fst cs)")
        case seen: True
        with False snoc.IH[of "fst c"] show ?thesis
          by (simp add: obj_get0_def js_add_def accumulated_snoc)
      next
        case new: False
        then have "accumulated cs (fst c) = 0" by (rule accumulated_absent)
        with new False snoc.IH[of "fst c"] show ?thesis
          by (simp add: obj_get0_def js_add_def accumulated_snoc)
      qed
      from True False m v show ?thesis by simp
    qed
  qed
qed

lemma tally_map_of:
  assumes "k \<in> set (map fst (foldl add_pair [] cs))"
  shows "map_of (foldl add_pair [] cs) k
    = Some (if k \<in> set prototype_functions then Str else Num (accumulated cs k))"
proof -
  from assms have "k \<in> set (map fst cs) \<and> k \<noteq> ''__proto__''" by (simp only: tally_keys) simp
  then show ?thesis by (simp only: tally_values) simp
qed

lemma tally_plain_order:
  assumes "\<forall>k\<in>set (map fst cs). \<not> is_array_index k \<and> k \<noteq> ''__proto__''"
  shows "map fst (foldl add_pair [] cs) = first_seen (map fst cs)"
proof -
  let ?T = "foldl add_pair [] cs"
  have a: "\<forall>k\<in>set (map fst ?T). \<not> is_array_index k"
    using assms by (simp only: tally_keys) blast
  have b: "\<forall>k\<in>set (first_seen (map fst cs)). \<not> is_array_index k \<and> k \<noteq> ''__proto__''"
    using assms by (simp only: set_first_seen)
  have "map fst ?T = filter (\<lambda>x. \<not> is_array_index x) (map fst ?T)"
    using a by (simp add: filter_id_conv)
  also have "\<dots> = filter (\<lambda>x. \<not> is_array_index x \<and> x \<noteq> ''__proto__'') (first_seen (map fst cs))"
    by (rule tally_nonindex)
  also have "\<dots> = first_seen (map fst cs)"
    using b by (simp add: filter_id_conv)
  finally show ?thesis .
qed

lemma numbers_all:
  "\<forall>e\<in>set obj. snd e = Num (f (fst e)) \<Longrightarrow> numbers obj = Some (map (\<lambda>k. (k, f k)) (map fst obj))"
proof (induction obj)
  case Nil
  then show ?case by simp
next
  case (Cons e obj)
  then have "snd e = Num (f (fst e))" and "numbers obj = Some (map (\<lambda>k. (k, f k)) (map fst obj))"
    by simp_all
  then show ?case by (cases e) simp
qed

lemma tally_numbers:
  assumes "\<forall>k\<in>set (map fst cs). k \<notin> set prototype_functions"
  shows "numbers (foldl add_pair [] cs)
    = Some (map (\<lambda>k. (k, accumulated cs k)) (map fst (foldl add_pair [] cs)))"
proof (rule numbers_all, rule ballI)
  fix e
  let ?T = "foldl add_pair [] cs"
  assume e: "e \<in> set ?T"
  then have k: "fst e \<in> set (map fst ?T)" by simp
  then have "fst e \<in> set (map fst cs)" by (simp only: tally_keys) simp
  with assms have "fst e \<notin> set prototype_functions" by blast
  with tally_map_of[OF k] have "map_of ?T (fst e) = Some (Num (accumulated cs (fst e)))" by simp
  moreover have "map_of ?T (fst e) = Some (snd e)"
    using tally_distinct[of cs] e by (cases e) simp
  ultimately show "snd e = Num (accumulated cs (fst e))" by simp
qed

lemma length_computeTopLanguages: "length (computeTopLanguages t) = min 6 (length t)"
  by (simp add: computeTopLanguages_eq top6_def sort_by_size_desc_def min.commute)

lemma names_computeTopLanguages:
  "map fst (computeTopLanguages t) = map fst (take 6 (sort_key (\<lambda>e. - snd e) t))"
  by (simp add: computeTopLanguages_eq top6_def sort_by_size_desc_def comp_def)

lemma sort_desc_stable:
  "filter (\<lambda>e. snd e = v) (sort_key (\<lambda>e. - snd e) t) = filter (\<lambda>e. snd e = (v::int)) t"
  using sort_key_stable[of "\<lambda>e. - snd e" "- v" t] by simp

lemma topLanguages_numbers: "numbers obj = Some t \<Longrightarrow> topLanguages obj = computeTopLanguages t"
  by (simp add: topLanguages_def)

text \<open>
  Claim C2, as amended. For a tally whose sizes are numbers, the returned names are the
  first six of the tally sorted by size, descending; the list has \<open>min 6 n\<close> entries for
  the \<open>n\<close> entries of the tally; the sort is stable, so entries of equal size keep the
  order of the tally.

  The tally that the aggregation builds holds every language of a repository that is
  not skipped once, except a language named \<^verbatim>\<open>__proto__\<close>, which is never stored. A
  language named like a function of \<^verbatim>\<open>Object.prototype\<close> is stored with a string, every
  other with the sum of its sizes. The order of the tally is the one \<^verbatim>\<open>Object.entries\<close>
  reports: names that are array indices first, by ascending value, then every other
  name in the order in which it was first encountered; when no name is an array index
  this is the order of first encounter. When no language is named like a function of
  \<^verbatim>\<open>Object.prototype\<close>, every size of the tally is a number, and \<^verbatim>\<open>main\<close> gets the list of
  \<^verbatim>\<open>computeTopLanguages\<close> at these numbers.
\<close>

theorem top_languages_order:
  "map fst (computeTopLanguages u) = map fst (take 6 (sort_key (\<lambda>e. - snd e) u))
   \<and> length (computeTopLanguages u) = min 6 (length u)
   \<and> sorted (map (\<lambda>e. - snd e) (sort_key (\<lambda>e. - snd e) u))
   \<and> filter (\<lambda>e. snd e = v) (sort_key (\<lambda>e. - snd e) u) = filter (\<lambda>e. snd e = v) u
   \<and> distinct (map fst (tally rs))
   \<and> set (map fst (tally rs)) = set (map fst (contributions rs)) - {''__proto__''}
   \<and> (k \<in> set (map fst (tally rs))
        \<longrightarrow> map_of (tally rs) k
            = Some (if k \<in> set prototype_functions then Str
                    else Num (accumulated (contributions rs) k)))
   \<and> map fst (tally rs)
       = filter is_array_index (map fst (tally rs))
         @ filter (\<lambda>x. \<not> is_array_index x) (map fst (tally rs))
   \<and> sorted (map decimal (filter is_array_index (map fst (tally rs))))
   \<and> filter (\<lambda>x. \<not> is_array_index x) (map fst (tally rs))
       = filter (\<lambda>x. \<not> is_array_index x \<and> x \<noteq> ''__proto__'')
           (first_seen (map fst (contributions rs)))
   \<and> (list_all (\<lambda>x. \<not> is_array_index x \<and> x \<noteq> ''__proto__'') (map fst (contributions rs))
        \<longrightarrow> map fst (tally rs) = first_seen (map fst (contributions rs)))
   \<and> (list_all (\<lambda>x. x \<notin> set prototype_functions) (map fst (contributions rs))
        \<longrightarrow> numbers (tally rs)
              = Some (map (\<lambda>k. (k, accumulated (contributions rs) k)) (map fst (tally rs)))
          \<and> topLanguages (tally rs)
              = computeTopLanguages
                  (map (\<lambda>k. (k, accumulated (contributions rs) k)) (map fst (tally rs)))
          \<and> length (topLanguages (tally rs))
              = min 6 (card (set (map fst (contributions rs)) - {''__proto__''})))"
proof (intro conjI impI)
  let ?cs = "contributions rs"
  have t: "tally rs = foldl add_pair [] ?cs" by (rule tally_foldl)
  show "map fst (computeTopLanguages u) = map fst (take 6 (sort_key (\<lambda>e. - snd e) u))"
    by (rule names_computeTopLanguages)
  show "length (computeTopLanguages u) = min 6 (length u)"
    by (rule length_computeTopLanguages)
  show "sorted (map (\<lambda>e. - snd e) (sort_key (\<lambda>e. - snd e) u))"
    by (rule sorted_sort_key)
  show "filter (\<lambda>e. snd e = v) (sort_key (\<lambda>e. - snd e) u) = filter (\<lambda>e. snd e = v) u"
    by (rule sort_desc_stable)
  show "distinct (map fst (tally rs))" unfolding t by (rule tally_distinct)
  show "set (map fst (tally rs)) = set (map fst ?cs) - {''__proto__''}" unfolding t by (rule tally_keys)
  show "map fst (tally rs)
       = filter is_array_index (map fst (tally rs))
         @ filter (\<lambda>x. \<not> is_array_index x) (map fst (tally rs))"
    using tally_index_first[of ?cs] unfolding t index_first_def .
  show "sorted (map decimal (filter is_array_index (map fst (tally rs))))"
    unfolding t by (rule tally_index_sorted)
  show "filter (\<lambda>x. \<not> is_array_index x) (map fst (tally rs))
       = filter (\<lambda>x. \<not> is_array_index x \<and> x \<noteq> ''__proto__'') (first_seen (map fst ?cs))"
    unfolding t by (rule tally_nonindex)
next
  assume "k \<in> set (map fst (tally rs))"
  then show "map_of (tally rs) k
      = Some (if k \<in> set prototype_functions then Str else Num (accumulated (contributions rs) k))"
    unfolding tally_foldl by (rule tally_map_of)
next
  assume "list_all (\<lambda>x. \<not> is_array_index x \<and> x \<noteq> ''__proto__'') (map fst (contributions rs))"
  then have "\<forall>k\<in>set (map fst (contributions rs)). \<not> is_array_index k \<and> k \<noteq> ''__proto__''"
    by (simp only: list_all_iff)
  then show "map fst (tally rs) = first_seen (map fst (contributions rs))"
    unfolding tally_foldl by (rule tally_plain_order)
next
  let ?cs = "contributions rs"
  let ?t = "map (\<lambda>k. (k, accumulated ?cs k)) (map fst (tally rs))"
  assume "list_all (\<lambda>x. x \<notin> set prototype_functions) (map fst ?cs)"
  then have "\<forall>k\<in>set (map fst ?cs). k \<notin> set prototype_functions"
    by (simp only: list_all_iff)
  then show n: "numbers (tally rs) = Some ?t"
    unfolding tally_foldl by (rule tally_numbers)
  then show l: "topLanguages (tally rs) = computeTopLanguages ?t"
    by (rule topLanguages_numbers)
  have d: "distinct (map fst (tally rs))" unfolding tally_foldl by (rule tally_distinct)
  have s: "set (map fst (tally rs)) = set (map fst ?cs) - {''__proto__''}"
    unfolding tally_foldl by (rule tally_keys)
  have "card (set (map fst (tally rs))) = length (map fst (tally rs))" using d by (rule distinct_card)
  then have "length ?t = card (set (map fst ?cs) - {''__proto__''})" using s by simp
  then show "length (topLanguages (tally rs)) = min 6 (card (set (map fst ?cs) - {''__proto__''}))"
    by (simp only: l length_computeTopLanguages)
qed

theorem top_languages_order_witness:
  "''Rust'' \<in> set (map fst (tally [ex_repo False [(''Go'', 100), (''Rust'', 100)],
                                    ex_repo True [(''C'', 900)],
                                    ex_repo False [(''Rust'', 50), (''TS'', 150)]]))
   \<and> list_all (\<lambda>x. \<not> is_array_index x \<and> x \<noteq> ''__proto__'')
       (map fst (contributions [ex_repo False [(''Go'', 100), (''Rust'', 100)],
                                ex_repo True [(''C'', 900)],
                                ex_repo False [(''Rust'', 50), (''TS'', 150)]]))
   \<and> list_all (\<lambda>x. x \<notin> set prototype_functions)
       (map fst (contributions [ex_repo False [(''Go'', 100), (''Rust'', 100)],
                                ex_repo True [(''C'', 900)],
                                ex_repo False [(''Rust'', 50), (''TS'', 150)]]))
   \<and> map fst (tally [ex_repo False [(''Go'', 100), (''Rust'', 100)],
                     ex_repo True [(''C'', 900)],
                     ex_repo False [(''Rust'', 50), (''TS'', 150)]])
       = [''Go'', ''Rust'', ''TS'']
   \<and> map_of (tally [ex_repo False [(''Go'', 100), (''Rust'', 100)],
                     ex_repo True [(''C'', 900)],
                     ex_repo False [(''Rust'', 50), (''TS'', 150)]]) ''Rust'' = Some (Num 150)
   \<and> numbers (tally [ex_repo False [(''Go'', 100), (''Rust'', 100)],
                      ex_repo True [(''C'', 900)],
                      ex_repo False [(''Rust'', 50), (''TS'', 150)]])
       = Some [(''Go'', 100), (''Rust'', 150), (''TS'', 150)]
   \<and> topLanguages (tally [ex_repo False [(''Go'', 100), (''Rust'', 100)],
                           ex_repo True [(''C'', 900)],
                           ex_repo False [(''Rust'', 50), (''TS'', 150)]])
       = [(''Rust'', 38), (''TS'', 38), (''Go'', 25)]"
proof -
  let ?rs = "[ex_repo False [(''Go'', 100), (''Rust'', 100)],
              ex_repo True [(''C'', 900)],
              ex_repo False [(''Rust'', 50), (''TS'', 150)]]"
  have k: "''Rust'' \<in> set (map fst (tally ?rs))" by code_simp
  have a: "list_all (\<lambda>x. \<not> is_array_index x \<and> x \<noteq> ''__proto__'') (map fst (contributions ?rs))"
    by code_simp
  have b: "list_all (\<lambda>x. x \<notin> set prototype_functions) (map fst (contributions ?rs))" by code_simp
  have c: "first_seen (map fst (contributions ?rs)) = [''Go'', ''Rust'', ''TS'']" by code_simp
  have d: "accumulated (contributions ?rs) ''Rust'' = 150" by code_simp
  have f: "''Rust'' \<notin> set prototype_functions" by code_simp
  have g: "map (\<lambda>k. (k, accumulated (contributions ?rs) k)) [''Go'', ''Rust'', ''TS'']
      = [(''Go'', 100), (''Rust'', 150), (''TS'', 150)]" by code_simp
  have e: "computeTopLanguages [(''Go'', 100), (''Rust'', 150), (''TS'', 150)]
      = [(''Rust'', 38), (''TS'', 38), (''Go'', 25)]" by code_simp
  note t = top_languages_order[of "[]" 0 ?rs "''Rust''"]
  from t a c have o: "map fst (tally ?rs) = [''Go'', ''Rust'', ''TS'']" by simp
  from t k d f have m: "map_of (tally ?rs) ''Rust'' = Some (Num 150)" by simp
  from t b have "numbers (tally ?rs)
      = Some (map (\<lambda>k. (k, accumulated (contributions ?rs) k)) (map fst (tally ?rs)))"
    and "topLanguages (tally ?rs)
      = computeTopLanguages (map (\<lambda>k. (k, accumulated (contributions ?rs) k)) (map fst (tally ?rs)))"
    by blast+
  then have "numbers (tally ?rs) = Some [(''Go'', 100), (''Rust'', 150), (''TS'', 150)]"
    and "topLanguages (tally ?rs) = [(''Rust'', 38), (''TS'', 38), (''Go'', 25)]"
    by (simp_all only: o g e)
  with k a b o m show ?thesis by blast
qed

text \<open>
  A language named \<^verbatim>\<open>7\<close> met after \<^verbatim>\<open>Go\<close>, with the same size, is returned before it. A
  language named \<^verbatim>\<open>__proto__\<close> is met and not stored. A language named \<^verbatim>\<open>constructor\<close> is
  stored with a string.
\<close>

theorem first_seen_order_counterexample:
  "numbers (tally [ex_repo False [(''Go'', 100), (''7'', 100)]]) = Some [(''7'', 100), (''Go'', 100)]
   \<and> computeTopLanguages [(''7'', 100), (''Go'', 100)] = [(''7'', 50), (''Go'', 50)]
   \<and> topLanguages (tally [ex_repo False [(''Go'', 100), (''7'', 100)]]) = [(''7'', 50), (''Go'', 50)]
   \<and> first_seen (map fst (contributions [ex_repo False [(''Go'', 100), (''7'', 100)]]))
     = [''Go'', ''7'']
   \<and> map fst (contributions [ex_repo False [(''Go'', 100), (''__proto__'', 100)]])
     = [''Go'', ''__proto__'']
   \<and> tally [ex_repo False [(''Go'', 100), (''__proto__'', 100)]] = [(''Go'', Num 100)]
   \<and> tally [ex_repo False [(''Go'', 100), (''constructor'', 100)]]
     = [(''Go'', Num 100), (''constructor'', Str)]"
  by code_simp

section \<open>The image as markup\<close>

lemma serialize_join:
  "concat (map serialize (intersperse (Text sep) (map f xs))) = join sep (map (\<lambda>x. serialize (f x)) xs)"
  by (induction xs rule: induct_list012) simp_all

lemma serialize_text_tree: "serialize (text_tree y fill content) = text_element y fill content"
  by (simp add: text_tree_def text_element_def attribute_def)

lemma textNodes_serialize:
  "textNodes U a =
   concat (map serialize
     (intersperse (Text ''\<newline>'')
       (map (\<lambda>(i, line). text_tree (startY + i * lineHeight) (color U line) (esc line))
         (enumerate 0 (clipped U a)))))"
proof -
  have "(\<lambda>x. serialize ((\<lambda>(i, line). text_tree (startY + i * lineHeight) (color U line) (esc line)) x))
      = (\<lambda>(i, line). textNode U i line)"
    by (auto simp: fun_eq_iff textNode_def serialize_text_tree)
  then show ?thesis by (simp only: serialize_join textNodes_def)
qed

lemma serialize_defs:
  \<open>serialize defs_tree =
     join ''\<newline>''
      [''<defs>'',
       ''    <filter id="shadow" x="-20%" y="-20%" width="140%" height="140%">'',
       ''      <feDropShadow dx="0" dy="10" stdDeviation="10" flood-color="#000" flood-opacity="0.45"/>'',
       ''    </filter>'',
       ''    <linearGradient id="scan" x1="0" y1="0" x2="0" y2="1">'',
       ''      <stop offset="0%" stop-color="#ffffff" stop-opacity="0.02"/>'',
       ''      <stop offset="100%" stop-color="#ffffff" stop-opacity="0.00"/>'',
       ''    </linearGradient>'',
       ''  </defs>'']\<close>
  by (simp add: defs_tree_def attribute_def)

lemma serialize_svg_tree:
  "renderTerminalSvg U a = xml_decl @ ''\<newline>'' @ serialize (svg_tree U a)"
  by (simp add: renderTerminalSvg_def svg_template_def svg_tree_def svg_frame_tree_def xml_decl_def serialize_defs
        rects_tree_def header_tree_def attribute_def textNodes_serialize)

lemma prefix_drop_append:
  "prefix e cs \<Longrightarrow> n = length e \<Longrightarrow> prefix e (cs @ ys) \<and> drop n (cs @ ys) = drop n cs @ ys"
  by (auto simp: prefix_def)

lemma refs_ok_append: "refs_ok P xs \<Longrightarrow> refs_ok P ys \<Longrightarrow> refs_ok P (xs @ ys)"
proof (induction P xs rule: refs_ok.induct)
  case (1 P)
  then show ?case by simp
next
  case (2 P c cs)
  show ?case
  proof (cases "c = CHR ''&''")
    case False
    with 2 show ?thesis by simp
  next
    case True
    from "2.prems"(1) True consider
        "prefix ''amp;'' cs" "refs_ok P (drop 4 cs)"
      | "prefix ''lt;'' cs" "refs_ok P (drop 3 cs)"
      | "prefix ''gt;'' cs" "refs_ok P (drop 3 cs)"
      | "prefix ''quot;'' cs" "refs_ok P (drop 5 cs)"
      | "prefix ''#39;'' cs" "refs_ok P (drop 4 cs)"
      by auto
    then show ?thesis
    proof cases
      case 1
      from prefix_drop_append[OF 1(1), of 4 ys]
      have p: "prefix ''amp;'' (cs @ ys)" and d: "drop 4 (cs @ ys) = drop 4 cs @ ys" by simp_all
      from "2.IH"(1)[OF True 1(2) "2.prems"(2)] show ?thesis
        using True p by (simp add: d del: drop_append)
    next
      case 2
      from prefix_drop_append[OF 2(1), of 3 ys]
      have p: "prefix ''lt;'' (cs @ ys)" and d: "drop 3 (cs @ ys) = drop 3 cs @ ys" by simp_all
      from "2.IH"(2)[OF True 2(2) "2.prems"(2)] show ?thesis
        using True p by (simp add: d del: drop_append)
    next
      case 3
      from prefix_drop_append[OF 3(1), of 3 ys]
      have p: "prefix ''gt;'' (cs @ ys)" and d: "drop 3 (cs @ ys) = drop 3 cs @ ys" by simp_all
      from "2.IH"(3)[OF True 3(2) "2.prems"(2)] show ?thesis
        using True p by (simp add: d del: drop_append)
    next
      case 4
      from prefix_drop_append[OF 4(1), of 5 ys]
      have p: "prefix ''quot;'' (cs @ ys)" and d: "drop 5 (cs @ ys) = drop 5 cs @ ys" by simp_all
      from "2.IH"(4)[OF True 4(2) "2.prems"(2)] show ?thesis
        using True p by (simp add: d del: drop_append)
    next
      case 5
      from prefix_drop_append[OF 5(1), of 4 ys]
      have p: "prefix ''#39;'' (cs @ ys)" and d: "drop 4 (cs @ ys) = drop 4 cs @ ys" by simp_all
      from "2.IH"(5)[OF True 5(2) "2.prems"(2)] show ?thesis
        using True p by (simp add: d del: drop_append)
    qed
  qed
qed

lemma refs_ok_plain:
  "list_all (\<lambda>c. c \<noteq> CHR ''&'' \<and> P c) s \<Longrightarrow> refs_ok P s"
  by (induction s) simp_all

lemma refs_ok_entity:
  "(c = CHR ''&'' \<or> c = CHR ''<'' \<or> c = CHR ''>'' \<or> c = CHR 0x22 \<or> c = CHR 0x27 \<or> P c)
   \<Longrightarrow> refs_ok P (entity c)"
  by (auto simp: entity_def)

lemma refs_ok_esc:
  "list_all (\<lambda>c. c = CHR ''&'' \<or> c = CHR ''<'' \<or> c = CHR ''>'' \<or> c = CHR 0x22 \<or> c = CHR 0x27 \<or> P c) s
   \<Longrightarrow> refs_ok P (esc s)"
proof (induction s)
  case Nil
  then show ?case by (simp add: esc_Nil)
next
  case (Cons c s)
  then have "refs_ok P (entity c)" and "refs_ok P (esc s)"
    by (simp_all add: refs_ok_entity)
  then show ?case by (simp only: esc_Cons refs_ok_append)
qed

lemma scan_append: "scan q a \<Longrightarrow> scan Start b \<Longrightarrow> scan q (a @ b)"
  by (induction a arbitrary: q) (auto split: option.splits)

lemma xml_chars_append: "xml_chars a \<Longrightarrow> xml_chars b \<Longrightarrow> xml_chars (a @ b)"
  by (simp add: xml_chars_def scan_append)

text \<open>A character of ASCII is read in the state \<open>Start\<close> only, and leaves the automaton there.\<close>

lemma step_five:
  "step q (CHR ''&'') = (if q = Start then Some Start else None)"
  "step q (CHR ''<'') = (if q = Start then Some Start else None)"
  "step q (CHR ''>'') = (if q = Start then Some Start else None)"
  "step q (CHR 0x22) = (if q = Start then Some Start else None)"
  "step q (CHR 0x27) = (if q = Start then Some Start else None)"
  by (cases q; simp add: between_def)+

lemma step_special:
  assumes "c = CHR ''&'' \<or> c = CHR ''<'' \<or> c = CHR ''>'' \<or> c = CHR 0x22 \<or> c = CHR 0x27"
    and "step q c = Some q'"
  shows "q = Start \<and> q' = Start"
proof -
  from assms(1) have "step q c = (if q = Start then Some Start else None)"
    by (elim disjE) (simp_all only: step_five)
  with assms(2) show ?thesis by (simp split: if_splits)
qed

lemma scan_entity:
  "c = CHR ''&'' \<or> c = CHR ''<'' \<or> c = CHR ''>'' \<or> c = CHR 0x22 \<or> c = CHR 0x27
   \<Longrightarrow> scan Start (entity c)"
  by (auto simp: entity_def between_def)

lemma scan_esc: "scan q s \<Longrightarrow> scan q (esc s)"
proof (induction s arbitrary: q)
  case Nil
  then show ?case by (simp add: esc_Nil)
next
  case (Cons c s)
  from Cons.prems obtain q' where st: "step q c = Some q'" and sc: "scan q' s"
    by (auto split: option.splits)
  show ?case
  proof (cases "c = CHR ''&'' \<or> c = CHR ''<'' \<or> c = CHR ''>'' \<or> c = CHR 0x22 \<or> c = CHR 0x27")
    case True
    from step_special[OF True st] have q: "q = Start" and q': "q' = Start" by simp_all
    have "scan Start (entity c)" using True by (rule scan_entity)
    moreover have "scan Start (esc s)" using Cons.IH[OF sc] q' by simp
    ultimately have "scan Start (entity c @ esc s)" by (rule scan_append)
    then show ?thesis by (simp only: esc_Cons q)
  next
    case False
    then have "entity c = [c]" by (simp add: entity_def)
    with st Cons.IH[OF sc] show ?thesis by (simp add: esc_Cons)
  qed
qed

lemma legal_esc: "legal s \<Longrightarrow> xml_chars (esc s)"
  by (simp add: legal_def xml_chars_def scan_esc)

lemma att_value_ok_esc: "legal s \<Longrightarrow> att_value_ok (esc s)"
proof -
  assume "legal s"
  then have "xml_chars (esc s)" by (rule legal_esc)
  moreover have "refs_ok (\<lambda>c. c \<noteq> CHR ''<'' \<and> c \<noteq> CHR 0x22) (esc s)"
    by (rule refs_ok_esc) (auto simp: list_all_iff)
  ultimately show ?thesis by (simp add: att_value_ok_def)
qed

lemma no_gt_no_cdata_end: "CHR ''>'' \<notin> set t \<Longrightarrow> \<not> sublist '']]>'' t"
proof
  assume a: "CHR ''>'' \<notin> set t" and b: "sublist '']]>'' t"
  from b have "set '']]>'' \<subseteq> set t" by (rule set_mono_sublist)
  with a show False by simp
qed

lemma char_data_ok_esc: "legal s \<Longrightarrow> char_data_ok (esc s)"
proof -
  assume "legal s"
  then have "xml_chars (esc s)" by (rule legal_esc)
  moreover have "refs_ok (\<lambda>c. c \<noteq> CHR ''<'') (esc s)"
    by (rule refs_ok_esc) (auto simp: list_all_iff)
  moreover have "\<not> sublist '']]>'' (esc s)"
    by (rule no_gt_no_cdata_end) (rule esc_no_raw)
  ultimately show ?thesis by (simp add: char_data_ok_def)
qed

lemma att_value_ok_append: "att_value_ok a \<Longrightarrow> att_value_ok b \<Longrightarrow> att_value_ok (a @ b)"
  by (simp add: att_value_ok_def refs_ok_append xml_chars_append)

lemma is_digit_digit: "d < 10 \<Longrightarrow> is_digit (digit d)"
proof -
  assume d: "d < 10"
  have "(of_char (char_of (48 + d)) :: nat) = (48 + d) mod 256" by (rule of_char_of)
  then have n: "(of_char (digit d) :: nat) = 48 + d" using d by (simp add: digit_def)
  have "(of_char (digit d) :: int) = int (of_char (digit d))" by (simp only: of_nat_of_char)
  then have "(of_char (digit d) :: int) = 48 + int d" using n by simp
  then show ?thesis using d by (simp add: is_digit_def)
qed

lemma digits_are_digits: "list_all is_digit (digits n)"
proof (induction n rule: digits.induct)
  case (1 n)
  show ?case
  proof (cases "n < 10")
    case True
    then show ?thesis by (subst digits.simps) (simp add: is_digit_digit)
  next
    case False
    then have "list_all is_digit (digits (n div 10))" by (rule 1)
    moreover have "is_digit (digit (n mod 10))" by (rule is_digit_digit) simp
    ultimately show ?thesis using False by (subst digits.simps) simp
  qed
qed

lemma is_digit_plain:
  "is_digit c \<Longrightarrow> step Start c = Some Start \<and> c \<noteq> CHR ''&'' \<and> c \<noteq> CHR ''<'' \<and> c \<noteq> CHR 0x22"
  by (auto simp: is_digit_def between_def)

lemma plain_scan: "plain s \<Longrightarrow> scan Start s"
  by (induction s) (simp_all add: plain_def)

lemma plain_legal: "plain s \<Longrightarrow> legal s"
  by (simp add: legal_def xml_chars_def plain_scan)

lemma plain_append: "plain (a @ b) = (plain a \<and> plain b)"
  by (simp add: plain_def)

lemma plain_digits: "plain (digits n)"
  using digits_are_digits[of n] is_digit_plain by (auto simp: plain_def list_all_iff)

lemma att_value_ok_digits: "att_value_ok (digits n)"
proof -
  have "list_all (\<lambda>c. c \<noteq> CHR ''&'' \<and> (c \<noteq> CHR ''<'' \<and> c \<noteq> CHR 0x22)) (digits n)"
    using digits_are_digits[of n] is_digit_plain by (auto simp: list_all_iff)
  then have "refs_ok (\<lambda>c. c \<noteq> CHR ''<'' \<and> c \<noteq> CHR 0x22) (digits n)" by (rule refs_ok_plain)
  moreover have "xml_chars (digits n)"
    using plain_legal[OF plain_digits] by (simp add: legal_def)
  ultimately show ?thesis by (simp add: att_value_ok_def)
qed

lemma legal_append: "legal a \<Longrightarrow> legal b \<Longrightarrow> legal (a @ b)"
  by (simp add: legal_def xml_chars_append)

lemma plain_literals:
  "plain ''@github:~$ whoami''" "plain ''@github:~$ stats --summary''" "plain ''followers: ''"
  "plain ''public_repos: ''" "plain ''total_commits (approx): ''"
  "plain ''@github:~$ stats --top-languages''" "plain ''@github:~$ _''"
  "plain '' ''" "plain ''%''" "plain ''-''" "plain []"
  by code_simp+

lemma set_group3: "set (group3 xs) \<subseteq> insert (CHR '','') (set xs)"
  by (induction xs rule: group3.induct) auto

lemma plain_grouped: "plain (rev (group3 (rev (digits n))))"
proof -
  have "step Start (CHR '','') = Some Start" by code_simp
  moreover have "\<forall>c\<in>set (digits n). step Start c = Some Start"
    using plain_digits[of n] by (simp add: plain_def list_all_iff)
  ultimately have "\<forall>c\<in>insert (CHR '','') (set (rev (digits n))). step Start c = Some Start" by simp
  then have "\<forall>c\<in>set (group3 (rev (digits n))). step Start c = Some Start"
    using set_group3[of "rev (digits n)"] by blast
  then show ?thesis by (simp add: plain_def list_all_iff)
qed

lemma plain_formatNumber: "plain (formatNumber n)"
  by (simp only: formatNumber_def plain_append plain_literals plain_grouped if_split) simp

lemma plain_String_int: "plain (String_int p)"
  by (simp only: String_int_def plain_append plain_literals plain_digits if_split) simp

lemma plain_replicate_space: "plain (replicate n (CHR '' ''))"
proof -
  have "step Start (CHR '' '') = Some Start" by code_simp
  then show ?thesis by (simp add: plain_def list_all_iff)
qed

lemma legal_langLine: "legal (fst l) \<Longrightarrow> legal (langLine l)"
proof -
  assume n: "legal (fst l)"
  have "plain (replicate (14 - length (fst l)) (CHR '' '') @ '' '' @ padStart 5 (String_int (snd l)) @ ''%'')"
    by (simp only: padStart_def plain_append plain_literals plain_String_int plain_replicate_space)
  then have "legal (replicate (14 - length (fst l)) (CHR '' '') @ '' '' @ padStart 5 (String_int (snd l)) @ ''%'')"
    by (rule plain_legal)
  with n have "legal (fst l @ replicate (14 - length (fst l)) (CHR '' '') @ '' ''
      @ padStart 5 (String_int (snd l)) @ ''%'')"
    by (rule legal_append)
  then show ?thesis by (simp add: langLine_def padEnd_def)
qed

lemma legal_prompt: "legal U \<Longrightarrow> plain t \<Longrightarrow> legal (U @ t)"
  by (rule legal_append) (simp_all add: plain_legal)

lemma legal_label: "plain t \<Longrightarrow> legal (t @ formatNumber n)"
  by (rule plain_legal) (simp only: plain_append plain_formatNumber)

lemma legal_lines:
  assumes "legal U" and "legal (name a)" and "list_all (\<lambda>l. legal (fst l)) (topLangs a)"
  shows "list_all legal (lines U a)"
proof -
  have langs: "list_all legal (map langLine (topLangs a))"
    using assms(3) by (simp add: list_all_iff legal_langLine)
  have t: "legal (title U a)" using assms(1,2) by (simp add: title_def)
  have e: "legal []" by (rule plain_legal) (rule plain_literals)
  have f: "legal (''followers: '' @ formatNumber (followers a))"
    "legal (''public_repos: '' @ formatNumber (publicRepos a))"
    "legal (''total_commits (approx): '' @ formatNumber (totalCommitsApprox a))"
    by (rule legal_label, rule plain_literals)+
  note p = legal_prompt[OF assms(1)]
  show ?thesis
    using langs t e f p[OF plain_literals(1)] p[OF plain_literals(2)] p[OF plain_literals(6)]
      p[OF plain_literals(7)]
    by (simp only: lines_def list_all_append list.pred_inject)
qed

lemma legal_clipped:
  assumes "legal U" and "legal (name a)" and "list_all (\<lambda>l. legal (fst l)) (topLangs a)"
  shows "\<forall>l\<in>set (clipped U a). legal l"
proof -
  have "set (clipped U a) \<subseteq> set (lines U a)" unfolding clipped_def by (rule set_take_subset)
  with legal_lines[OF assms] show ?thesis by (auto simp: list_all_iff)
qed

lemma valid_intersperse: "valid sep \<Longrightarrow> list_all valid ts \<Longrightarrow> list_all valid (intersperse sep ts)"
  by (induction ts rule: induct_list012) simp_all

lemma valid_text_tree_from:
  "valid (text_tree 0 [] []) \<Longrightarrow> att_value_ok (digits y) \<Longrightarrow> att_value_ok fill \<Longrightarrow>
   char_data_ok content \<Longrightarrow> valid (text_tree y fill content)"
  by (auto simp: text_tree_def atts_ok_def)

lemma valid_text_tree_closed: "valid (text_tree 0 [] [])"
  by code_simp

lemma att_value_ok_color: "att_value_ok (color U l)"
proof -
  have g: "att_value_ok green" by code_simp
  have d: "att_value_ok dim" by code_simp
  show ?thesis
  proof (cases "color U l = green")
    case True
    then show ?thesis by (simp only: g)
  next
    case False
    with color_cases[of U l] have "color U l = dim" by blast
    then show ?thesis by (simp only: d)
  qed
qed

lemma valid_text_nodes:
  assumes "\<forall>l\<in>set ls. legal l"
  shows "list_all valid
           (map (\<lambda>(i, line). text_tree (startY + i * lineHeight) (color U line) (esc line))
             (enumerate n ls))"
proof -
  have "valid (text_tree (startY + i * lineHeight) (color U l) (esc l))"
    if "(i, l) \<in> set (enumerate n ls)" for i l
  proof -
    from that have "l \<in> set ls" by (auto simp: enumerate_eq_zip dest: set_zip_rightD)
    with assms have "legal l" by blast
    then have "char_data_ok (esc l)" by (rule char_data_ok_esc)
    with valid_text_tree_closed att_value_ok_digits att_value_ok_color show ?thesis
      by (rule valid_text_tree_from)
  qed
  then show ?thesis by (auto simp: list_all_iff)
qed

lemma valid_header_tree_from:
  "valid (header_tree []) \<Longrightarrow> char_data_ok (h @ '' '' @ [CHR 0xE2, CHR 0x80, CHR 0x94] @ '' stats'') \<Longrightarrow>
   valid (header_tree h)"
  by (auto simp: header_tree_def atts_ok_def)

lemma valid_header_closed: "valid (header_tree [])"
  by code_simp

lemma char_data_ok_header:
  assumes "legal s"
  shows "char_data_ok (esc s @ '' '' @ [CHR 0xE2, CHR 0x80, CHR 0x94] @ '' stats'')"
proof -
  let ?t = "'' '' @ [CHR 0xE2, CHR 0x80, CHR 0x94] @ '' stats''"
  have t: "refs_ok (\<lambda>c. c \<noteq> CHR ''<'') ?t" and x: "xml_chars ?t" by code_simp+
  have e: "refs_ok (\<lambda>c. c \<noteq> CHR ''<'') (esc s)" and y: "xml_chars (esc s)"
    using char_data_ok_esc[OF assms] by (simp_all add: char_data_ok_def)
  have "CHR ''>'' \<notin> set (esc s @ ?t)" using esc_no_raw(2)[of s] by simp
  then have "\<not> sublist '']]>'' (esc s @ ?t)" by (rule no_gt_no_cdata_end)
  with refs_ok_append[OF e t] xml_chars_append[OF y x] show ?thesis
    by (simp only: char_data_ok_def) simp
qed

lemma valid_frame_from:
  "valid (svg_frame_tree [] (Text []) []) \<Longrightarrow> att_value_ok label \<Longrightarrow> valid header \<Longrightarrow>
   list_all valid texts \<Longrightarrow> valid (svg_frame_tree label header texts)"
  by (auto simp: svg_frame_tree_def atts_ok_def)

lemma valid_frame_closed: "valid (svg_frame_tree [] (Text []) [])"
  by code_simp

lemma valid_svg_tree:
  assumes "legal U" and "legal (name a)" and "list_all (\<lambda>l. legal (fst l)) (topLangs a)"
  shows "valid (svg_tree U a)"
proof -
  have l: "att_value_ok (''Terminal GitHub stats for '' @ esc U)"
  proof -
    have "att_value_ok ''Terminal GitHub stats for ''" by code_simp
    then show ?thesis using att_value_ok_esc[OF assms(1)] by (rule att_value_ok_append)
  qed
  have h: "valid (header_tree (esc U))"
    using valid_header_closed char_data_ok_header[OF assms(1)] by (rule valid_header_tree_from)
  have "valid (Text ''\<newline>'')" by code_simp
  then have n: "list_all valid
      (intersperse (Text ''\<newline>'')
         (map (\<lambda>(i, line). text_tree (startY + i * lineHeight) (color U line) (esc line))
           (enumerate 0 (clipped U a))))"
    using valid_text_nodes[OF legal_clipped[OF assms]] by (rule valid_intersperse)
  show ?thesis
    unfolding svg_tree_def using valid_frame_closed l h n by (rule valid_frame_from)
qed

text \<open>
  Claim C4, as amended. \<^verbatim>\<open>esc\<close> replaces every occurrence of \<open>&\<close>, \<open><\<close>, \<open>>\<close>, the double
  quote and the apostrophe by its entity and leaves every other character as it is; so
  the escaped text holds none of \<open><\<close>, \<open>>\<close>, double quote, apostrophe, and every \<open>&\<close> in
  it opens one of the five entities. The image is the XML declaration and the
  serialisation of \<open>svg_tree\<close>, in which the handle and every line stand escaped. That
  tree is valid, so the image is well formed, whenever the handle, the display name and
  the language names hold only characters that XML allows (\<open>legal\<close>: tab, line feed,
  carriage return, U+0020 to U+D7FF, U+E000 to U+FFFD, U+10000 to U+10FFFF); \<^verbatim>\<open>esc\<close>
  passes every other character through.
\<close>

theorem esc_only_entities:
  "esc s = concat (map entity s)
   \<and> CHR ''<'' \<notin> set (esc s) \<and> CHR ''>'' \<notin> set (esc s)
   \<and> CHR 0x22 \<notin> set (esc s) \<and> CHR 0x27 \<notin> set (esc s)
   \<and> (\<forall>i. i < length (esc s) \<and> esc s ! i = CHR ''&''
          \<longrightarrow> (\<exists>e. e \<in> set entities \<and> prefix e (drop i (esc s))))
   \<and> renderTerminalSvg U a = xml_decl @ ''\<newline>'' @ serialize (svg_tree U a)
   \<and> (legal U \<and> legal (name a) \<and> list_all (\<lambda>l. legal (fst l)) (topLangs a)
        \<longrightarrow> valid (svg_tree U a))"
proof (intro conjI allI impI)
  show "esc s = concat (map entity s)" by (rule esc_concat_entity)
  show "CHR ''<'' \<notin> set (esc s)" "CHR ''>'' \<notin> set (esc s)"
    "CHR 0x22 \<notin> set (esc s)" "CHR 0x27 \<notin> set (esc s)"
    by (rule esc_no_raw)+
  show "renderTerminalSvg U a = xml_decl @ ''\<newline>'' @ serialize (svg_tree U a)"
    by (rule serialize_svg_tree)
next
  fix i
  assume "i < length (esc s) \<and> esc s ! i = CHR ''&''"
  then show "\<exists>e. e \<in> set entities \<and> prefix e (drop i (esc s))"
    using esc_amp[of i s] by blast
next
  assume "legal U \<and> legal (name a) \<and> list_all (\<lambda>l. legal (fst l)) (topLangs a)"
  then show "valid (svg_tree U a)" using valid_svg_tree[of U a] by blast
qed

theorem esc_only_entities_witness:
  "esc ''<b>Tom & 'Jerry'</b>'' = ''&lt;b&gt;Tom &amp; &#39;Jerry&#39;&lt;/b&gt;''
   \<and> 0 < length (esc ''<b>Tom & 'Jerry'</b>'')
   \<and> esc ''<b>Tom & 'Jerry'</b>'' ! 0 = CHR ''&''
   \<and> (\<exists>e. e \<in> set entities \<and> prefix e (drop 0 (esc ''<b>Tom & 'Jerry'</b>'')))
   \<and> legal ''octo<cat''
   \<and> legal (name \<lparr>name = ''<b>Zo'' @ [CHR 0xC3, CHR 0xAB] @ '' & 'Jerry'</b>'', followers = 12,
                    publicRepos = 3, totalCommitsApprox = 456, topLangs = [(''C++'', 100)]\<rparr>)
   \<and> list_all (\<lambda>l. legal (fst l))
        (topLangs \<lparr>name = ''<b>Zo'' @ [CHR 0xC3, CHR 0xAB] @ '' & 'Jerry'</b>'', followers = 12,
                    publicRepos = 3, totalCommitsApprox = 456, topLangs = [(''C++'', 100)]\<rparr>)
   \<and> valid (svg_tree ''octo<cat''
        \<lparr>name = ''<b>Zo'' @ [CHR 0xC3, CHR 0xAB] @ '' & 'Jerry'</b>'', followers = 12,
         publicRepos = 3, totalCommitsApprox = 456, topLangs = [(''C++'', 100)]\<rparr>)"
proof -
  let ?a = "\<lparr>name = ''<b>Zo'' @ [CHR 0xC3, CHR 0xAB] @ '' & 'Jerry'</b>'', followers = 12,
            publicRepos = 3, totalCommitsApprox = 456, topLangs = [(''C++'', 100)]\<rparr>"
  note t = esc_only_entities[of "''<b>Tom & 'Jerry'</b>''" "''octo<cat''" ?a]
  have "esc ''<b>Tom & 'Jerry'</b>'' = concat (map entity ''<b>Tom & 'Jerry'</b>'')"
    using t by (rule conjunct1)
  then have e: "esc ''<b>Tom & 'Jerry'</b>'' = ''&lt;b&gt;Tom &amp; &#39;Jerry&#39;&lt;/b&gt;''"
    by (simp add: entity_def)
  have h: "0 < length (esc ''<b>Tom & 'Jerry'</b>'') \<and> esc ''<b>Tom & 'Jerry'</b>'' ! 0 = CHR ''&''"
    unfolding e by simp
  with t have x: "\<exists>e. e \<in> set entities \<and> prefix e (drop 0 (esc ''<b>Tom & 'Jerry'</b>''))"
    by blast
  have l: "legal ''octo<cat'' \<and> legal (name ?a) \<and> list_all (\<lambda>l. legal (fst l)) (topLangs ?a)"
    by code_simp
  with t have "valid (svg_tree ''octo<cat'' ?a)" by blast
  with e h x l show ?thesis by blast
qed

text \<open>
  A display name that holds the control character U+0001 reaches the image unchanged:
  the image then holds a character that XML forbids. So does a display name that holds
  U+FFFF (in UTF-8 the bytes \<open>EF BF BF\<close>).
\<close>

theorem control_character_counterexample:
  "esc [CHR 0x01] = [CHR 0x01]
   \<and> \<not> xml_chars [CHR 0x01]
   \<and> CHR 0x01 \<in> set (renderTerminalSvg ''octocat''
        \<lparr>name = [CHR 0x01], followers = 12, publicRepos = 3, totalCommitsApprox = 456, topLangs = []\<rparr>)
   \<and> \<not> valid (svg_tree ''octocat''
        \<lparr>name = [CHR 0x01], followers = 12, publicRepos = 3, totalCommitsApprox = 456, topLangs = []\<rparr>)
   \<and> esc [CHR 0xEF, CHR 0xBF, CHR 0xBF] = [CHR 0xEF, CHR 0xBF, CHR 0xBF]
   \<and> \<not> xml_chars [CHR 0xEF, CHR 0xBF, CHR 0xBF]
   \<and> \<not> valid (svg_tree ''octocat''
        \<lparr>name = [CHR 0xEF, CHR 0xBF, CHR 0xBF], followers = 12, publicRepos = 3,
         totalCommitsApprox = 456, topLangs = []\<rparr>)"
proof -
  have a: "esc [CHR 0x01] = [CHR 0x01] \<and> \<not> xml_chars [CHR 0x01]"
    by code_simp
  have b: "CHR 0x01 \<in> set (renderTerminalSvg ''octocat''
        \<lparr>name = [CHR 0x01], followers = 12, publicRepos = 3, totalCommitsApprox = 456, topLangs = []\<rparr>)"
    by (simp add: renderTerminalSvg_def svg_template_def textNodes_def clipped_cases scaffold_def title_def
          enumerate_eq_zip upt_rec[of 0] textNode_def text_element_def esc_Cons esc_Nil entity_def)
  have c: "\<not> valid (svg_tree ''octocat''
        \<lparr>name = [CHR 0x01], followers = 12, publicRepos = 3, totalCommitsApprox = 456, topLangs = []\<rparr>)"
    by code_simp
  have d: "esc [CHR 0xEF, CHR 0xBF, CHR 0xBF] = [CHR 0xEF, CHR 0xBF, CHR 0xBF]
      \<and> \<not> xml_chars [CHR 0xEF, CHR 0xBF, CHR 0xBF]"
    by code_simp
  have e: "\<not> valid (svg_tree ''octocat''
        \<lparr>name = [CHR 0xEF, CHR 0xBF, CHR 0xBF], followers = 12, publicRepos = 3,
         totalCommitsApprox = 456, topLangs = []\<rparr>)"
    by code_simp
  from a b c d e show ?thesis by blast
qed

end
